theory Spec2Isabelle
  imports Complex_Main "HOL-Library.Sublist" "HOL-Library.AList"
begin

section \<open>JavaScript string primitives used by the scraper\<close>

text \<open>
  A JavaScript string is modelled as a \<^typ>\<open>string\<close> (a list of 8-bit characters), so
  \<^term>\<open>length s\<close> is what the source reads as \<^verbatim>\<open>s.length\<close> for text in the Latin-1
  range. Lengths, indices, counters, instants and the settings the scanner reads are whole
  numbers and are modelled as \<^typ>\<open>int\<close>; the redirect budget, which its setter lets be
  a fraction or \<^verbatim>\<open>NaN\<close>, has a type of its own (see below).
\<close>

definition clampIndex :: "int \<Rightarrow> nat \<Rightarrow> nat" where
  \<comment> \<open>an index argument of \<^verbatim>\<open>indexOf\<close>/\<^verbatim>\<open>substring\<close>, clamped to \<open>[0, length]\<close>\<close>
  "clampIndex i n = (if i < 0 then 0 else min (nat i) n)"

fun findToken :: "string \<Rightarrow> string \<Rightarrow> nat option" where
  \<comment> \<open>the first position at which \<open>t\<close> occurs in the string\<close>
  "findToken t [] = (if t = [] then Some 0 else None)"
| "findToken t (c # s) =
     (if prefix t (c # s) then Some 0 else map_option Suc (findToken t s))"

definition indexOf :: "string \<Rightarrow> string \<Rightarrow> int \<Rightarrow> int" where
  \<comment> \<open>\<^verbatim>\<open>s.indexOf(t, fromIndex)\<close>: the first match at or after the clamped index, else \<open>-1\<close>\<close>
  "indexOf s t fromIndex =
     (let k = clampIndex fromIndex (length s)
      in case findToken t (drop k s) of None \<Rightarrow> - 1 | Some j \<Rightarrow> int (k + j))"

definition substring :: "string \<Rightarrow> int \<Rightarrow> int \<Rightarrow> string" where
  \<comment> \<open>\<^verbatim>\<open>s.substring(a, b)\<close>: both ends clamped, swapped when \<open>a > b\<close>\<close>
  "substring s a b =
     (let a' = clampIndex a (length s); b' = clampIndex b (length s)
      in take (max a' b' - min a' b') (drop (min a' b') s))"

definition substringFrom :: "string \<Rightarrow> int \<Rightarrow> string" where
  \<comment> \<open>\<^verbatim>\<open>s.substring(a)\<close>\<close>
  "substringFrom s a = drop (clampIndex a (length s)) s"

definition substr :: "string \<Rightarrow> int \<Rightarrow> string" where
  \<comment> \<open>\<^verbatim>\<open>s.substr(start)\<close>: a negative start counts from the end\<close>
  "substr s start =
     (if start < 0 then drop (nat (max (int (length s) + start) 0)) s
      else drop (nat start) s)"

definition startsWith :: "string \<Rightarrow> string \<Rightarrow> bool" where
  "startsWith s t = prefix t s"

definition endsWith :: "string \<Rightarrow> string \<Rightarrow> bool" where
  "endsWith s t = prefix (rev t) (rev s)"

section \<open>JavaScript numbers\<close>

text \<open>
  The guard of \<^verbatim>\<open>withMaxRedirects\<close> lets through every number strictly between 0 and 5,
  whole or not, and \<^verbatim>\<open>NaN\<close>, for which both of its comparisons are false. So the redirect
  budget is a \<open>number\<close>: \<^verbatim>\<open>NaN\<close>, one of the two infinities, or a finite value, a
  rational number as every finite double is one. A \<open>jsvalue\<close> is what a caller can pass
  where a number is expected: a number, or a value whose \<^verbatim>\<open>typeof\<close> is not
  \<^verbatim>\<open>'number'\<close>.
\<close>

datatype number = NaN | NegInfinity | Finite rat | PosInfinity

fun numberLe :: "number \<Rightarrow> number \<Rightarrow> bool" where
  \<comment> \<open>\<^verbatim>\<open>a <= b\<close>: false as soon as one side is \<^verbatim>\<open>NaN\<close>\<close>
  "numberLe NaN b = False"
| "numberLe a NaN = False"
| "numberLe NegInfinity b = True"
| "numberLe a PosInfinity = True"
| "numberLe (Finite x) (Finite y) = (x \<le> y)"
| "numberLe a b = False"

definition numberGe :: "number \<Rightarrow> number \<Rightarrow> bool" where
  \<comment> \<open>\<^verbatim>\<open>a >= b\<close>\<close>
  "numberGe a b = numberLe b a"

definition ofInt :: "int \<Rightarrow> number" where
  \<comment> \<open>a whole number read as a JavaScript number\<close>
  "ofInt i = Finite (of_int i)"

datatype jsvalue = JSNumber number | JSNotNumber

section \<open>lib/ScraperOpts.js: the request configuration\<close>

record URL =
  protocol :: string
  hostname :: string
  port :: string
  pathname :: string
  search :: string
  origin :: string
  href :: string

datatype error =
    InvalidUrl
  | RedirectLimitExceeded number
  | InvalidHeaderLine string
  | IllegalMaxRedirects jsvalue

text \<open>
  The fields of the class, without the timing measurements and the transform function,
  which no part of the request or of the stream scanner reads.
\<close>

record ScraperOpts =
  url :: URL
  totalRedirects :: nat
  chunkBufferSize :: int
  timeout :: int
  startToken :: "string option"
  isStartTokenIncluded :: bool
  stopToken :: "string option"
  isStopTokenIncluded :: bool
  compact :: bool
  maxBytes :: int
  restrictRequestFrequency :: bool
  maxRedirects :: number
  userAgent :: "string option"
  headers :: "string option"

definition DEFAULT_USER_AGENT :: string where
  "DEFAULT_USER_AGENT = ''node.js''"

definition DEFAULT_CHUNK_BUFFER_SIZE :: int where
  "DEFAULT_CHUNK_BUFFER_SIZE = 6000"

definition fieldDefaults :: "URL \<Rightarrow> ScraperOpts" where
  \<comment> \<open>the field initialisers of the class, with the URL the constructor stores\<close>
  "fieldDefaults u =
     \<lparr> url = u, totalRedirects = 0, chunkBufferSize = DEFAULT_CHUNK_BUFFER_SIZE,
       timeout = 5000, startToken = None, isStartTokenIncluded = True,
       stopToken = None, isStopTokenIncluded = False, compact = False, maxBytes = 0,
       restrictRequestFrequency = True, maxRedirects = ofInt 0,
       userAgent = Some DEFAULT_USER_AGENT, headers = None \<rparr>"

definition truthy :: "string option \<Rightarrow> bool" where
  \<comment> \<open>a nullable string used as a condition: null and the empty string are false\<close>
  "truthy s = (case s of None \<Rightarrow> False | Some t \<Rightarrow> t \<noteq> [])"

definition orEmpty :: "string option \<Rightarrow> string" where
  \<comment> \<open>\<^verbatim>\<open>s || ''\<close>\<close>
  "orEmpty s = (case s of None \<Rightarrow> [] | Some t \<Rightarrow> t)"

definition withStartToken :: "string option \<Rightarrow> bool \<Rightarrow> ScraperOpts \<Rightarrow> ScraperOpts" where
  "withStartToken s included opts =
     opts\<lparr> startToken := (if truthy s then s else None), isStartTokenIncluded := included \<rparr>"

definition withStopToken :: "string option \<Rightarrow> bool \<Rightarrow> ScraperOpts \<Rightarrow> ScraperOpts" where
  "withStopToken s included opts =
     opts\<lparr> stopToken := Some (orEmpty s), isStopTokenIncluded := included \<rparr>"

definition withHeaders :: "string option \<Rightarrow> ScraperOpts \<Rightarrow> ScraperOpts" where
  "withHeaders s opts = opts\<lparr> headers := (if truthy s then s else None) \<rparr>"

definition withRequestFrequencyRestriction :: "bool \<Rightarrow> ScraperOpts \<Rightarrow> ScraperOpts" where
  "withRequestFrequencyRestriction restrict opts = opts\<lparr> restrictRequestFrequency := restrict \<rparr>"

definition withMaxRedirects :: "jsvalue \<Rightarrow> ScraperOpts \<Rightarrow> error + ScraperOpts" where
  \<comment> \<open>\<^verbatim>\<open>if (typeof max !== 'number' || max <= 0 || max >= 5) throw ...\<close>\<close>
  "withMaxRedirects v opts =
     (case v of
        JSNotNumber \<Rightarrow> Inl (IllegalMaxRedirects v)
      | JSNumber m \<Rightarrow>
          if numberLe m (ofInt 0) \<or> numberGe m (ofInt 5) then Inl (IllegalMaxRedirects v)
          else Inr (opts\<lparr> maxRedirects := m \<rparr>))"

definition isRedirect :: "ScraperOpts \<Rightarrow> bool" where
  "isRedirect opts = (totalRedirects opts \<noteq> 0)"

section \<open>lib/scraper.js: the stream scanner of one response\<close>

definition DEFAULT_MAX_SIZE :: int where
  "DEFAULT_MAX_SIZE = 10 * 1024 * 1024"

definition startTokenOf :: "ScraperOpts \<Rightarrow> string" where
  "startTokenOf opts = orEmpty (startToken opts)"

definition stopTokenOf :: "ScraperOpts \<Rightarrow> string" where
  "stopTokenOf opts = orEmpty (stopToken opts)"

definition startTokenLength :: "ScraperOpts \<Rightarrow> int" where
  "startTokenLength opts = int (length (startTokenOf opts))"

definition stopTokenLength :: "ScraperOpts \<Rightarrow> int" where
  "stopTokenLength opts = int (length (stopTokenOf opts))"

definition chunkBufferSizeOf :: "ScraperOpts \<Rightarrow> int" where
  \<comment> \<open>\<^verbatim>\<open>Math.max(opts.chunkBufferSize, startTokenLength, stopTokenLength)\<close>\<close>
  "chunkBufferSizeOf opts =
     max (chunkBufferSize opts) (max (startTokenLength opts) (stopTokenLength opts))"

definition maxHtmlSize :: "ScraperOpts \<Rightarrow> int" where
  \<comment> \<open>\<^verbatim>\<open>opts.maxBytes || DEFAULT_MAX_SIZE\<close>\<close>
  "maxHtmlSize opts = (if maxBytes opts = 0 then DEFAULT_MAX_SIZE else maxBytes opts)"

text \<open>The variables the chunk handlers close over.\<close>

record scanner =
  isRequestDestroyed :: bool
  isStartTokenFound :: bool
  minStopTokenIndexInAllHtml :: int
  bufferedData :: string
  retHtml :: string
  remainingChars :: int

definition initialScanner :: "ScraperOpts \<Rightarrow> bool \<Rightarrow> scanner" where
  \<comment> \<open>the flag is the state of the request when the handlers are installed\<close>
  "initialScanner opts destroyed =
     \<lparr> isRequestDestroyed = destroyed, isStartTokenFound = (startTokenOf opts = []),
       minStopTokenIndexInAllHtml = 0, bufferedData = [], retHtml = [],
       remainingChars = maxHtmlSize opts \<rparr>"

definition destroyRequest :: "scanner \<Rightarrow> scanner" where
  "destroyRequest st = st\<lparr> isRequestDestroyed := True \<rparr>"

definition searchStartToken :: "ScraperOpts \<Rightarrow> scanner \<Rightarrow> bool \<times> scanner" where
  \<comment> \<open>the block \<^verbatim>\<open>if (!isStartTokenFound) {...}\<close>; \<open>False\<close> is its \<^verbatim>\<open>return\<close>\<close>
  "searchStartToken opts st =
     (if \<not> isStartTokenFound st then
        let startTokenIndex = indexOf (bufferedData st) (startTokenOf opts) 0 in
        if startTokenIndex \<ge> 0 then
          let st1 = st\<lparr> bufferedData :=
                      substringFrom (bufferedData st) (startTokenIndex + startTokenLength opts) \<rparr>;
              st2 = (if isStartTokenIncluded opts
                     then st1\<lparr> retHtml := startTokenOf opts,
                               minStopTokenIndexInAllHtml := startTokenLength opts \<rparr>
                     else st1)
          in (True, st2\<lparr> isStartTokenFound := True \<rparr>)
        else
          (False, st\<lparr> bufferedData := substr (bufferedData st) (1 - startTokenLength opts) \<rparr>)
      else (True, st))"

definition searchStopToken :: "ScraperOpts \<Rightarrow> scanner \<Rightarrow> bool \<times> scanner" where
  \<comment> \<open>the block \<^verbatim>\<open>if (stopToken) {...}\<close>; \<open>True\<close> is its \<^verbatim>\<open>return _destroyRequest()\<close>\<close>
  "searchStopToken opts st =
     (if stopTokenOf opts \<noteq> [] then
        let stopTokenIndex =
              indexOf (retHtml st) (stopTokenOf opts) (minStopTokenIndexInAllHtml st) in
        if stopTokenIndex \<ge> 0 then
          let endOffset = (if isStopTokenIncluded opts then stopTokenLength opts else 0)
          in (True, destroyRequest (st\<lparr> retHtml :=
                substring (retHtml st) 0 (min (stopTokenIndex + endOffset) (maxHtmlSize opts)) \<rparr>))
        else
          (False, st\<lparr> minStopTokenIndexInAllHtml :=
                        int (length (retHtml st)) - stopTokenLength opts \<rparr>)
      else (False, st))"

definition enforceMaxHtmlSize :: "ScraperOpts \<Rightarrow> scanner \<Rightarrow> scanner" where
  \<comment> \<open>the end of the token handler, from \<^verbatim>\<open>if (retHtml.length < maxHtmlSize)\<close> on\<close>
  "enforceMaxHtmlSize opts st =
     (if int (length (retHtml st)) < maxHtmlSize opts then st
      else destroyRequest
             (if int (length (retHtml st)) > maxHtmlSize opts
              then st\<lparr> retHtml := substring (retHtml st) 0 (maxHtmlSize opts) \<rparr>
              else st))"

definition processChunkTokens :: "ScraperOpts \<Rightarrow> scanner \<Rightarrow> string \<Rightarrow> bool \<Rightarrow> scanner" where
  \<comment> \<open>\<^verbatim>\<open>_processChunk\<close> when a start or a stop token is configured\<close>
  "processChunkTokens opts st chunkData forceProcessing =
     (if isRequestDestroyed st \<and> bufferedData st = [] then st
      else
        let st1 = st\<lparr> bufferedData := bufferedData st @ chunkData \<rparr> in
        if int (length (bufferedData st1)) < chunkBufferSizeOf opts \<and> \<not> forceProcessing
        then st1
        else
          case searchStartToken opts st1 of
            (False, st2) \<Rightarrow> st2
          | (True, st2) \<Rightarrow>
              let st3 = st2\<lparr> retHtml := retHtml st2 @ bufferedData st2, bufferedData := [] \<rparr>
              in case searchStopToken opts st3 of
                   (True, st4) \<Rightarrow> st4
                 | (False, st4) \<Rightarrow> enforceMaxHtmlSize opts st4)"

definition processChunkCounting :: "scanner \<Rightarrow> string \<Rightarrow> scanner" where
  \<comment> \<open>\<^verbatim>\<open>_processChunk\<close> when neither token is configured\<close>
  "processChunkCounting st chunkData =
     (if isRequestDestroyed st then st
      else
        let st1 = st\<lparr> remainingChars := remainingChars st - int (length chunkData) \<rparr> in
        if remainingChars st1 \<le> 0
        then destroyRequest (st1\<lparr> retHtml := substring chunkData 0 (- remainingChars st1) \<rparr>)
        else st1\<lparr> retHtml := retHtml st1 @ chunkData \<rparr>)"

definition processChunk :: "ScraperOpts \<Rightarrow> scanner \<Rightarrow> string \<Rightarrow> bool \<Rightarrow> scanner" where
  \<comment> \<open>the handler chosen by \<^verbatim>\<open>if (startToken || stopToken)\<close>\<close>
  "processChunk opts st chunkData forceProcessing =
     (if startTokenOf opts \<noteq> [] \<or> stopTokenOf opts \<noteq> []
      then processChunkTokens opts st chunkData forceProcessing
      else processChunkCounting st chunkData)"

definition doResolve :: "ScraperOpts \<Rightarrow> scanner \<Rightarrow> scanner" where
  \<comment> \<open>the forced flush at the end of the stream\<close>
  "doResolve opts st = (if bufferedData st \<noteq> [] then processChunk opts st [] True else st)"

definition feedChunks :: "ScraperOpts \<Rightarrow> scanner \<Rightarrow> string list \<Rightarrow> scanner" where
  \<comment> \<open>one \<^verbatim>\<open>'data'\<close> event per chunk, in order\<close>
  "feedChunks opts st chunks = foldl (\<lambda>s c. processChunk opts s c False) st chunks"

definition scanBody :: "ScraperOpts \<Rightarrow> bool \<Rightarrow> string list \<Rightarrow> string" where
  \<comment> \<open>what the promise is resolved with: all chunks, then end of stream\<close>
  "scanBody opts destroyed chunks =
     retHtml (doResolve opts (feedChunks opts (initialScanner opts destroyed) chunks))"

definition oneByteChunks :: "string \<Rightarrow> string list" where
  "oneByteChunks body = map (\<lambda>c. [c]) body"

section \<open>lib/ScraperOpts.js: URL validation and redirects\<close>

definition upperLetters :: string where
  "upperLetters = ''ABCDEFGHIJKLMNOPQRSTUVWXYZ''"

definition lowerLetters :: string where
  "lowerLetters = ''abcdefghijklmnopqrstuvwxyz''"

definition digits :: string where
  "digits = ''0123456789''"

definition toLowerCase :: "char \<Rightarrow> char" where
  \<comment> \<open>case folding of an ignore-case pattern: only ASCII letters are paired\<close>
  "toLowerCase c = (case map_of (zip upperLetters lowerLetters) c of None \<Rightarrow> c | Some l \<Rightarrow> l)"

definition isLineTerminator :: "char \<Rightarrow> bool" where
  \<comment> \<open>the characters the pattern \<^verbatim>\<open>.\<close> does not match\<close>
  "isLineTerminator c = (c = CHR 0x0A \<or> c = CHR 0x0D)"

definition endsWithThenAnyChar :: "string \<Rightarrow> string \<Rightarrow> bool" where
  \<comment> \<open>the pattern \<^verbatim>\<open>t.$\<close>\<close>
  "endsWithThenAnyChar s t = (s \<noteq> [] \<and> \<not> isLineTerminator (last s) \<and> endsWith (butlast s) t)"

definition HTTP_OR_HTTPS_URL_REGEX_test :: "string \<Rightarrow> bool" where
  \<comment> \<open>\<^verbatim>\<open>/^https?:\/\/.*/\<close>\<close>
  "HTTP_OR_HTTPS_URL_REGEX_test s = (startsWith s ''http://'' \<or> startsWith s ''https://'')"

definition UNSUPPORTED_FILENAMES_REGEX_test :: "string \<Rightarrow> bool" where
  \<comment> \<open>\<^verbatim>\<open>/\.(jpe?g|png|gif.?|mp.|avi|web.)$/i\<close>\<close>
  "UNSUPPORTED_FILENAMES_REGEX_test s =
     (let l = map toLowerCase s in
        endsWith l ''.jpg'' \<or> endsWith l ''.jpeg'' \<or> endsWith l ''.png''
      \<or> endsWith l ''.gif'' \<or> endsWithThenAnyChar l ''.gif''
      \<or> endsWithThenAnyChar l ''.mp'' \<or> endsWith l ''.avi''
      \<or> endsWithThenAnyChar l ''.web'')"

text \<open>
  The constructor \<^verbatim>\<open>URL\<close> of \<^verbatim>\<open>node:url\<close> is not code of this repository: it is the
  parameter \<open>newURL\<close>, which gives \<open>None\<close> where the constructor throws.
\<close>

definition assertValidUrl :: "(string \<Rightarrow> URL option) \<Rightarrow> string \<Rightarrow> error + URL" where
  "assertValidUrl newURL urlString =
     (if HTTP_OR_HTTPS_URL_REGEX_test urlString \<and> \<not> UNSUPPORTED_FILENAMES_REGEX_test urlString
      then (case newURL urlString of None \<Rightarrow> Inl InvalidUrl | Some u \<Rightarrow> Inr u)
      else Inl InvalidUrl)"

definition newScraperOpts :: "(string \<Rightarrow> URL option) \<Rightarrow> string \<Rightarrow> error + ScraperOpts" where
  \<comment> \<open>the constructor\<close>
  "newScraperOpts newURL urlString =
     (case assertValidUrl newURL urlString of Inl e \<Rightarrow> Inl e | Inr u \<Rightarrow> Inr (fieldDefaults u))"

definition redirectTarget :: "ScraperOpts \<Rightarrow> string \<Rightarrow> string" where
  \<comment> \<open>\<^verbatim>\<open>(redirectUrl.startsWith('/') ? this.url.origin : '') + redirectUrl\<close>\<close>
  "redirectTarget opts redirectUrl =
     (if startsWith redirectUrl ''/'' then origin (url opts) else []) @ redirectUrl"

definition updateForRedirect ::
  "(string \<Rightarrow> URL option) \<Rightarrow> string \<Rightarrow> ScraperOpts \<Rightarrow> error + ScraperOpts" where
  "updateForRedirect newURL redirectUrl opts =
     (if numberGe (ofInt (int (totalRedirects opts))) (maxRedirects opts)
      then Inl (RedirectLimitExceeded (maxRedirects opts))
      else case assertValidUrl newURL (redirectTarget opts redirectUrl) of
             Inl e \<Rightarrow> Inl e
           | Inr u \<Rightarrow> Inr (opts\<lparr> url := u, totalRedirects := totalRedirects opts + 1 \<rparr>))"

section \<open>lib/helpers.js: the header block\<close>

definition isWhiteSpace :: "char \<Rightarrow> bool" where
  \<comment> \<open>what \<^verbatim>\<open>\s\<close> matches and \<^verbatim>\<open>trim()\<close> removes, in the Latin-1 range\<close>
  "isWhiteSpace c =
     (c \<in> set [CHR 0x09, CHR 0x0A, CHR 0x0B, CHR 0x0C, CHR 0x0D, CHR 0x20, CHR 0xA0])"

definition trim :: "string \<Rightarrow> string" where
  "trim s = rev (dropWhile isWhiteSpace (rev (dropWhile isWhiteSpace s)))"

fun splitOn :: "char \<Rightarrow> string \<Rightarrow> string list" where
  \<comment> \<open>\<^verbatim>\<open>s.split(d)\<close> for a one-character separator\<close>
  "splitOn d [] = [[]]"
| "splitOn d (c # s) =
     (if c = d then [] # splitOn d s
      else case splitOn d s of [] \<Rightarrow> [[c]] | l # ls \<Rightarrow> (c # l) # ls)"

definition isAlnum :: "char \<Rightarrow> bool" where
  \<comment> \<open>\<^verbatim>\<open>[a-z0-9]\<close>, ignoring case\<close>
  "isAlnum c = (c \<in> set lowerLetters \<or> c \<in> set upperLetters \<or> c \<in> set digits)"

definition isHeaderNameChar :: "char \<Rightarrow> bool" where
  \<comment> \<open>\<^verbatim>\<open>[a-z0-9-]\<close>, ignoring case\<close>
  "isHeaderNameChar c = (isAlnum c \<or> c = CHR ''-'')"

definition isHeaderName :: "string \<Rightarrow> bool" where
  \<comment> \<open>\<^verbatim>\<open>(Cookie|Authorization|Accept|[a-z0-9]+?-[a-z0-9-]+?)\<close> against a whole string\<close>
  "isHeaderName n =
     (map toLowerCase n = ''cookie'' \<or> map toLowerCase n = ''authorization''
      \<or> map toLowerCase n = ''accept''
      \<or> (takeWhile isAlnum n \<noteq> []
          \<and> (case dropWhile isAlnum n of
                [] \<Rightarrow> False
              | c # b \<Rightarrow> c = CHR ''-'' \<and> b \<noteq> [] \<and> list_all isHeaderNameChar b)))"

definition HTTP_HEADER_LINE_REGEX_exec :: "string \<Rightarrow> (string \<times> string) option" where
  \<comment> \<open>\<^verbatim>\<open>/^\s*(Cookie|Authorization|Accept|[a-z0-9]+?-[a-z0-9-]+?)\s*:\s*([^"]+?)\s*$/i\<close>:
      the two groups of the match, \<open>None\<close> when the line does not match\<close>
  "HTTP_HEADER_LINE_REGEX_exec line =
     (let s1 = dropWhile isWhiteSpace line;
          name = takeWhile isHeaderNameChar s1;
          s2 = dropWhile isWhiteSpace (dropWhile isHeaderNameChar s1)
      in if \<not> isHeaderName name then None
         else case s2 of
                [] \<Rightarrow> None
              | c # s3 \<Rightarrow>
                  if c \<noteq> CHR '':'' then None
                  else
                    let s4 = dropWhile isWhiteSpace s3 in
                    if s4 = [] then (if s3 = [] then None else Some (name, [last s3]))
                    else
                      let v = rev (dropWhile isWhiteSpace (rev s4)) in
                      if CHR 0x22 \<in> set v then None else Some (name, v))"

fun parseHeaderLines ::
  "(string \<times> string) list \<Rightarrow> string list \<Rightarrow> error + (string \<times> string) list" where
  \<comment> \<open>the loop over the trimmed lines\<close>
  "parseHeaderLines target [] = Inr target"
| "parseHeaderLines target (line # ls) =
     (if line = [] then parseHeaderLines target ls
      else case HTTP_HEADER_LINE_REGEX_exec line of
             None \<Rightarrow> Inl (InvalidHeaderLine line)
           | Some (n, v) \<Rightarrow> parseHeaderLines (AList.update n v target) ls)"

definition headerLines :: "string \<Rightarrow> string list" where
  \<comment> \<open>\<^verbatim>\<open>headersStr.replaceAll('\r', '').split('\n').map(s => s.trim())\<close>\<close>
  "headerLines headersStr =
     map trim (splitOn (CHR 0x0A) (filter (\<lambda>c. c \<noteq> CHR 0x0D) headersStr))"

definition parseWgetHeadersInto ::
  "(string \<times> string) list \<Rightarrow> string \<Rightarrow> error + (string \<times> string) list" where
  \<comment> \<open>the target object is an association list in insertion order\<close>
  "parseWgetHeadersInto target headersStr =
     (if headersStr = [] then Inr target
      else parseHeaderLines target (headerLines headersStr))"

section \<open>lib/scraper.js: the rate limiter and the request\<close>

definition MAXIMUM_REQUEST_FREQUENCY_PER_HOST_IN_MILLIS :: int where
  "MAXIMUM_REQUEST_FREQUENCY_PER_HOST_IN_MILLIS = 3000"

definition validateRequestToHostFrequency ::
  "int \<Rightarrow> string \<Rightarrow> (string \<times> int) list \<Rightarrow> bool \<times> (string \<times> int) list" where
  \<comment> \<open>\<open>now\<close> is the value of \<^verbatim>\<open>Date.now()\<close>; the table is \<^verbatim>\<open>nextAllowedRequestTimeByHostname\<close>\<close>
  "validateRequestToHostFrequency now host table =
     (let nextAllowedTime =
            (case map_of table host of None \<Rightarrow> now | Some t \<Rightarrow> if t = 0 then now else t);
          isAllowed = (nextAllowedTime \<le> now);
          table1 = (if isAllowed
                    then AList.update host (now + MAXIMUM_REQUEST_FREQUENCY_PER_HOST_IN_MILLIS) table
                    else table)
      in (isAllowed, filter (\<lambda>(h, t). \<not> t < now) table1))"

definition CONTENT_TYPE_HTML_REGEX_test :: "string \<Rightarrow> bool" where
  \<comment> \<open>\<^verbatim>\<open>/text\/x?html/i\<close>\<close>
  "CONTENT_TYPE_HTML_REGEX_test s =
     (findToken ''text/html'' (map toLowerCase s) \<noteq> None
      \<or> findToken ''text/xhtml'' (map toLowerCase s) \<noteq> None)"

datatype rejection =
    TooFrequentRequests
  | ErrorText error
  | UnsupportedContentType string string
  | RequestFailed string
  | ExecutorThrew error

datatype settlement = Pending | Resolved string | Rejected rejection

definition settle :: "settlement \<Rightarrow> settlement \<Rightarrow> settlement" where
  \<comment> \<open>\<^verbatim>\<open>resolve\<close> and \<^verbatim>\<open>reject\<close> act on a pending promise only\<close>
  "settle p new = (if p = Pending then new else p)"

text \<open>What the server answers to one exchange: a transport error, or response headers
  (\<^verbatim>\<open>location\<close>, \<^verbatim>\<open>content-type\<close>) and the chunks of the body.\<close>

datatype response =
    TransportError string
  | Response "string option" "string option" "string list"

record requestOpts =
  reqMethod :: string
  reqProtocol :: string
  reqHostname :: string
  reqPort :: string
  reqPath :: string
  reqTimeout :: int
  reqHeaders :: "(string \<times> string) list"

record fetched =
  outcome :: settlement
  exchanges :: "requestOpts list"
  optsAfter :: ScraperOpts
  tableAfter :: "(string \<times> int) list"

definition frequencyGate ::
  "int \<Rightarrow> ScraperOpts \<Rightarrow> (string \<times> int) list \<Rightarrow> settlement \<times> (string \<times> int) list" where
  \<comment> \<open>the first statement of the executor: it rejects, and does not return\<close>
  "frequencyGate now opts table =
     (if \<not> isRedirect opts \<and> restrictRequestFrequency opts then
        let (isAllowed, table1) = validateRequestToHostFrequency now (hostname (url opts)) table
        in (if isAllowed then Pending else Rejected TooFrequentRequests, table1)
      else (Pending, table))"

definition requestHeaders :: "ScraperOpts \<Rightarrow> error + (string \<times> string) list" where
  "requestHeaders opts =
     (let h0 = (if truthy (userAgent opts) then [(''User-Agent'', orEmpty (userAgent opts))]
                else [])
      in if truthy (headers opts) then parseWgetHeadersInto h0 (orEmpty (headers opts))
         else Inr h0)"

definition requestOptsOf :: "ScraperOpts \<Rightarrow> (string \<times> string) list \<Rightarrow> requestOpts" where
  "requestOptsOf opts hs =
     \<lparr> reqMethod = ''GET'', reqProtocol = protocol (url opts), reqHostname = hostname (url opts),
       reqPort = port (url opts), reqPath = pathname (url opts) @ search (url opts),
       reqTimeout = timeout opts, reqHeaders = hs \<rparr>"

text \<open>
  \<^verbatim>\<open>_requestHtml\<close>. The list holds what the server answers to the successive exchanges
  of the call; an exchange without an answer leaves the promise as it is. The result
  records the exchanges that were issued, in order.
\<close>

fun requestHtml ::
  "(string \<Rightarrow> URL option) \<Rightarrow> int \<Rightarrow> ScraperOpts \<Rightarrow> (string \<times> int) list
     \<Rightarrow> response list \<Rightarrow> fetched" where
  "requestHtml newURL now opts table [] =
     (let (p0, table1) = frequencyGate now opts table in
      case requestHeaders opts of
        Inl e \<Rightarrow>
          \<lparr> outcome = settle p0 (Rejected (ExecutorThrew e)), exchanges = [],
            optsAfter = opts, tableAfter = table1 \<rparr>
      | Inr hs \<Rightarrow>
          \<lparr> outcome = p0, exchanges = [requestOptsOf opts hs],
            optsAfter = opts, tableAfter = table1 \<rparr>)"
| "requestHtml newURL now opts table (r # rs) =
     (let (p0, table1) = frequencyGate now opts table in
      case requestHeaders opts of
        Inl e \<Rightarrow>
          \<lparr> outcome = settle p0 (Rejected (ExecutorThrew e)), exchanges = [],
            optsAfter = opts, tableAfter = table1 \<rparr>
      | Inr hs \<Rightarrow>
          (case r of
             TransportError e \<Rightarrow>
               \<lparr> outcome = settle p0 (Rejected (RequestFailed e)),
                 exchanges = [requestOptsOf opts hs], optsAfter = opts, tableAfter = table1 \<rparr>
           | Response redirectUrl contentType chunks \<Rightarrow>
               if truthy redirectUrl then
                 (case updateForRedirect newURL (orEmpty redirectUrl) opts of
                    Inl err \<Rightarrow>
                      \<lparr> outcome = settle p0 (Rejected (ErrorText err)),
                        exchanges = [requestOptsOf opts hs], optsAfter = opts,
                        tableAfter = table1 \<rparr>
                  | Inr opts1 \<Rightarrow>
                      (let next = requestHtml newURL now opts1 table1 rs
                       in next\<lparr> outcome := settle p0 (outcome next),
                                exchanges := requestOptsOf opts hs # exchanges next \<rparr>))
               else
                 (let unsupported = \<not> CONTENT_TYPE_HTML_REGEX_test (orEmpty contentType);
                      p1 = (if unsupported
                            then settle p0 (Rejected (UnsupportedContentType
                                   (orEmpty contentType) (href (url opts))))
                            else p0)
                  in \<lparr> outcome = settle p1 (Resolved (scanBody opts unsupported chunks)),
                       exchanges = [requestOptsOf opts hs], optsAfter = opts,
                       tableAfter = table1 \<rparr>)))"

section \<open>Sample data\<close>

text \<open>The URLs of the repository's tests and README, as the URL constructor parses them.\<close>

definition TEST1_URL :: URL where
  "TEST1_URL =
     \<lparr> protocol = ''http:'', hostname = ''foo-bar.nil'', port = [], pathname = ''/test1'',
       search = [], origin = ''http://foo-bar.nil'', href = ''http://foo-bar.nil/test1'' \<rparr>"

definition TEST2_URL :: URL where
  "TEST2_URL =
     \<lparr> protocol = ''http:'', hostname = ''foo-bar.nil'', port = [], pathname = ''/test2'',
       search = [], origin = ''http://foo-bar.nil'', href = ''http://foo-bar.nil/test2'' \<rparr>"

definition PNG_QUERY_URL :: URL where
  "PNG_QUERY_URL =
     \<lparr> protocol = ''http:'', hostname = ''foo-bar.nil'', port = [], pathname = ''/logo.png'',
       search = ''?v=2'', origin = ''http://foo-bar.nil'',
       href = ''http://foo-bar.nil/logo.png?v=2'' \<rparr>"

definition sampleURL :: "string \<Rightarrow> URL option" where
  \<comment> \<open>the URL constructor on the sample strings; no other string is used with it\<close>
  "sampleURL s =
     (if s = ''http://foo-bar.nil/test1'' then Some TEST1_URL
      else if s = ''http://foo-bar.nil/test2'' then Some TEST2_URL
      else if s = ''http://foo-bar.nil/logo.png?v=2'' then Some PNG_QUERY_URL
      else None)"

definition redirectResponses :: "(string \<times> string option \<times> string list) list \<Rightarrow> response list" where
  \<comment> \<open>responses carrying the given \<^verbatim>\<open>location\<close> headers, with any content type and body\<close>
  "redirectResponses reds = map (\<lambda>(l, c, b). Response (Some l) c b) reds"

fun validRedirects :: "(string \<Rightarrow> URL option) \<Rightarrow> URL \<Rightarrow> string list \<Rightarrow> bool" where
  \<comment> \<open>every location of the chain is non-empty and passes the URL validation,
      each resolved against the URL reached before it\<close>
  "validRedirects newURL u [] = True"
| "validRedirects newURL u (l # ls) =
     (l \<noteq> [] \<and>
      (case assertValidUrl newURL ((if startsWith l ''/'' then origin u else []) @ l) of
         Inl e \<Rightarrow> False
       | Inr u1 \<Rightarrow> validRedirects newURL u1 ls))"

fun redirectUrls :: "(string \<Rightarrow> URL option) \<Rightarrow> URL \<Rightarrow> string list \<Rightarrow> URL list" where
  \<comment> \<open>the URLs the locations of the chain lead to, one after the other\<close>
  "redirectUrls newURL u [] = []"
| "redirectUrls newURL u (l # ls) =
     (case assertValidUrl newURL ((if startsWith l ''/'' then origin u else []) @ l) of
        Inl e \<Rightarrow> []
      | Inr u1 \<Rightarrow> u1 # redirectUrls newURL u1 ls)"

section \<open>The kept text of a body\<close>

text \<open>
  What the scanner keeps of a body does not depend on how the body arrives: it is the text
  from the first start token on. The two conditions below are stated on this text.
\<close>

definition stopSearchStart :: "ScraperOpts \<Rightarrow> nat" where
  \<comment> \<open>where the first search for the stop token begins: behind an included start token\<close>
  "stopSearchStart opts =
     (if startTokenOf opts \<noteq> [] \<and> isStartTokenIncluded opts then length (startTokenOf opts)
      else 0)"

definition keptText :: "ScraperOpts \<Rightarrow> string \<Rightarrow> string" where
  \<comment> \<open>the body from its first start token on (the token itself only when it is included):
      what \<^verbatim>\<open>retHtml\<close> would hold with no stop token and no byte budget\<close>
  "keptText opts body =
     (if startTokenOf opts = [] then body
      else if indexOf body (startTokenOf opts) 0 < 0 then []
      else (if isStartTokenIncluded opts then startTokenOf opts else [])
           @ substringFrom body (indexOf body (startTokenOf opts) 0 + startTokenLength opts))"

definition stopTokenStraddlesBudget :: "ScraperOpts \<Rightarrow> string \<Rightarrow> bool" where
  \<comment> \<open>the first stop token of the kept text \<open>r\<close> is excluded from the output, begins before
      the byte budget and ends after it\<close>
  "stopTokenStraddlesBudget opts r \<longleftrightarrow>
     stopTokenOf opts \<noteq> [] \<and> \<not> isStopTokenIncluded opts \<and>
     (let j = indexOf r (stopTokenOf opts) (int (stopSearchStart opts))
      in 0 \<le> j \<and> j < maxHtmlSize opts \<and> maxHtmlSize opts < j + stopTokenLength opts)"

definition stopTokenLeavesStartToken :: "ScraperOpts \<Rightarrow> string \<Rightarrow> bool" where
  \<comment> \<open>the stop token occurs in the kept text \<open>r\<close> at a position inside the included start
      token, and ends at or after the end of the start token\<close>
  "stopTokenLeavesStartToken opts r \<longleftrightarrow>
     stopTokenOf opts \<noteq> [] \<and>
     list_ex (\<lambda>i. stopSearchStart opts \<le> i + length (stopTokenOf opts)
                  \<and> prefix (stopTokenOf opts) (drop i r))
       [0..<stopSearchStart opts]"

section \<open>Notions used in the proofs about the scanner\<close>

definition searchFrom :: "string \<Rightarrow> string \<Rightarrow> nat \<Rightarrow> nat option" where
  \<comment> \<open>the first match at or after position \<open>k\<close>\<close>
  "searchFrom t s k = map_option (\<lambda>j. k + j) (findToken t (drop k s))"

definition movePending :: "scanner \<Rightarrow> scanner" where
  \<comment> \<open>\<^verbatim>\<open>retHtml += bufferedData; bufferedData = ''\<close>\<close>
  "movePending st = st\<lparr> retHtml := retHtml st @ bufferedData st, bufferedData := [] \<rparr>"

definition finishScan :: "ScraperOpts \<Rightarrow> scanner \<Rightarrow> scanner" where
  \<comment> \<open>the stop token search and the size check, on the moved data\<close>
  "finishScan opts st3 =
     (case searchStopToken opts st3 of
        (True, st4) \<Rightarrow> st4
      | (False, st4) \<Rightarrow> enforceMaxHtmlSize opts st4)"

definition scanPending :: "ScraperOpts \<Rightarrow> scanner \<Rightarrow> string \<Rightarrow> scanner" where
  \<comment> \<open>the scan of the pending data \<open>p\<close>\<close>
  "scanPending opts st p =
     (case searchStartToken opts (st\<lparr> bufferedData := p \<rparr>) of
        (False, st2) \<Rightarrow> st2
      | (True, st2) \<Rightarrow> finishScan opts (movePending st2))"

definition afterStart :: "ScraperOpts \<Rightarrow> scanner \<Rightarrow> string \<Rightarrow> scanner" where
  \<comment> \<open>the variables once the start token is found, the rest of the data moved\<close>
  "afterStart opts st rest =
     st\<lparr> bufferedData := [],
         retHtml := (if isStartTokenIncluded opts then startTokenOf opts else retHtml st) @ rest,
         minStopTokenIndexInAllHtml :=
           (if isStartTokenIncluded opts then startTokenLength opts
            else minStopTokenIndexInAllHtml st),
         isStartTokenFound := True \<rparr>"

definition keptFrom :: "ScraperOpts \<Rightarrow> scanner \<Rightarrow> string \<Rightarrow> string" where
  \<comment> \<open>the kept text as it results from the handler's variables and the data \<open>x\<close> to come\<close>
  "keptFrom opts st x =
     (if isStartTokenFound st then retHtml st @ bufferedData st @ x
      else if indexOf (bufferedData st @ x) (startTokenOf opts) 0 < 0 then []
      else (if isStartTokenIncluded opts then startTokenOf opts else [])
           @ substringFrom (bufferedData st @ x)
               (indexOf (bufferedData st @ x) (startTokenOf opts) 0 + startTokenLength opts))"

definition floorSound :: "ScraperOpts \<Rightarrow> int \<Rightarrow> string \<Rightarrow> string \<Rightarrow> bool" where
  \<comment> \<open>searching the kept text \<open>r\<close> from the floor \<open>f\<close> finds what searching it from
      \<^const>\<open>stopSearchStart\<close> finds: no stop token begins between the two\<close>
  "floorSound opts f ret r \<longleftrightarrow>
     f \<le> int (length ret) \<and> stopSearchStart opts \<le> length ret \<and>
     (\<forall>i. (clampIndex f (length ret) \<le> i \<and> i < stopSearchStart opts)
           \<or> (stopSearchStart opts \<le> i \<and> i < clampIndex f (length ret))
          \<longrightarrow> \<not> prefix (stopTokenOf opts) (drop i r))"

definition scannerInv :: "ScraperOpts \<Rightarrow> scanner \<Rightarrow> string \<Rightarrow> string \<Rightarrow> bool" where
  \<comment> \<open>what holds of the handler's variables between two chunks, \<open>x\<close> being the data to come
      and \<open>r\<close> the kept text of the whole body\<close>
  "scannerInv opts st x r \<longleftrightarrow>
     (isRequestDestroyed st \<longrightarrow> bufferedData st = []) \<and>
     (\<not> isRequestDestroyed st \<longrightarrow>
        keptFrom opts st x = r \<and>
        (\<not> isStartTokenFound st \<longrightarrow>
           startTokenOf opts \<noteq> [] \<and> retHtml st = [] \<and> minStopTokenIndexInAllHtml st = 0) \<and>
        (isStartTokenFound st \<longrightarrow>
           (int (length (retHtml st)) < maxHtmlSize opts \<or> retHtml st = []) \<and>
           (stopTokenOf opts \<noteq> [] \<longrightarrow>
              floorSound opts (minStopTokenIndexInAllHtml st) (retHtml st) r
              \<and> indexOf (retHtml st) (stopTokenOf opts) (minStopTokenIndexInAllHtml st) < 0)))"

section \<open>Unfolding rules for evaluation\<close>

lemmas char_defs = upperLetters_def lowerLetters_def digits_def toLowerCase_def isAlnum_def
  isHeaderNameChar_def isWhiteSpace_def isLineTerminator_def

lemmas string_defs = clampIndex_def indexOf_def substring_def substringFrom_def substr_def
  startsWith_def endsWith_def truthy_def orEmpty_def

lemmas scan_defs = scanBody_def feedChunks_def doResolve_def processChunk_def
  processChunkTokens_def processChunkCounting_def enforceMaxHtmlSize_def searchStopToken_def
  searchStartToken_def destroyRequest_def initialScanner_def maxHtmlSize_def
  chunkBufferSizeOf_def startTokenLength_def stopTokenLength_def startTokenOf_def stopTokenOf_def
  fieldDefaults_def DEFAULT_MAX_SIZE_def DEFAULT_CHUNK_BUFFER_SIZE_def oneByteChunks_def

lemmas header_defs = parseWgetHeadersInto_def headerLines_def trim_def
  HTTP_HEADER_LINE_REGEX_exec_def isHeaderName_def

lemmas url_defs = assertValidUrl_def HTTP_OR_HTTPS_URL_REGEX_test_def
  UNSUPPORTED_FILENAMES_REGEX_test_def endsWithThenAnyChar_def newScraperOpts_def
  updateForRedirect_def redirectTarget_def sampleURL_def numberGe_def ofInt_def

lemmas request_defs = frequencyGate_def validateRequestToHostFrequency_def requestHeaders_def
  requestOptsOf_def settle_def isRedirect_def CONTENT_TYPE_HTML_REGEX_test_def
  MAXIMUM_REQUEST_FREQUENCY_PER_HOST_IN_MILLIS_def DEFAULT_USER_AGENT_def

lemmas kept_defs = keptText_def stopSearchStart_def stopTokenStraddlesBudget_def
  stopTokenLeavesStartToken_def

section \<open>The header line pattern\<close>

lemma toLowerCase_alnum: "isAlnum (toLowerCase c) \<Longrightarrow> isAlnum c"
proof (cases "map_of (zip upperLetters lowerLetters) c")
  case None
  then show "isAlnum (toLowerCase c) \<Longrightarrow> isAlnum c" by (simp only: toLowerCase_def option.case)
next
  case (Some l)
  then have "c \<in> set upperLetters"
    by (meson map_of_SomeD set_zip_leftD)
  then show "isAlnum (toLowerCase c) \<Longrightarrow> isAlnum c" by (simp add: isAlnum_def)
qed

lemma lower_word_alnum:
  assumes "map toLowerCase n = w" and "list_all isAlnum w"
  shows "list_all isAlnum n"
  using assms by (induction n arbitrary: w) (auto simp: toLowerCase_alnum)

lemma nameChar_not_space: "isHeaderNameChar c \<Longrightarrow> \<not> isWhiteSpace c"
  unfolding char_defs by auto

lemma isHeaderName_chars:
  assumes "isHeaderName n"
  shows "n \<noteq> [] \<and> list_all isHeaderNameChar n"
proof -
  have fixed: "list_all isHeaderNameChar n \<and> n \<noteq> []"
    if "map toLowerCase n = w" and "list_all isAlnum w" and "w \<noteq> []" for w
  proof -
    have "list_all isAlnum n" using that lower_word_alnum by blast
    then have "list_all isHeaderNameChar n"
      by (simp add: list_all_iff isHeaderNameChar_def)
    moreover have "n \<noteq> []" using that by auto
    ultimately show ?thesis by simp
  qed
  have low: "list_all isAlnum ''cookie''" "list_all isAlnum ''authorization''"
    "list_all isAlnum ''accept''"
    by (simp_all add: isAlnum_def lowerLetters_def)
  consider "map toLowerCase n = ''cookie''" | "map toLowerCase n = ''authorization''"
    | "map toLowerCase n = ''accept''"
    | "takeWhile isAlnum n \<noteq> [] \<and>
        (case dropWhile isAlnum n of [] \<Rightarrow> False
         | c # b \<Rightarrow> c = CHR ''-'' \<and> b \<noteq> [] \<and> list_all isHeaderNameChar b)"
    using assms unfolding isHeaderName_def by blast
  then show ?thesis
  proof cases
    case 1 then show ?thesis using fixed[of "''cookie''"] low by simp
  next
    case 2 then show ?thesis using fixed[of "''authorization''"] low by simp
  next
    case 3 then show ?thesis using fixed[of "''accept''"] low by simp
  next
    case 4
    then obtain b where d: "dropWhile isAlnum n = CHR ''-'' # b" and b: "list_all isHeaderNameChar b"
      and t: "takeWhile isAlnum n \<noteq> []"
      by (auto split: list.splits)
    have n: "n = takeWhile isAlnum n @ CHR ''-'' # b"
      using d takeWhile_dropWhile_id[of isAlnum n] by simp
    have "list_all isHeaderNameChar (takeWhile isAlnum n)"
      by (auto simp: list_all_iff isHeaderNameChar_def dest: set_takeWhileD)
    then have "list_all isHeaderNameChar (takeWhile isAlnum n @ CHR ''-'' # b)"
      using b by (simp add: isHeaderNameChar_def)
    then have "list_all isHeaderNameChar n" using n by simp
    moreover have "n \<noteq> []" using t by auto
    ultimately show ?thesis by simp
  qed
qed

lemma dropWhile_stop: "ys \<noteq> [] \<Longrightarrow> \<not> P (hd ys) \<Longrightarrow> dropWhile P ys = ys"
  by (cases ys) auto

lemma takeWhile_stop: "ys \<noteq> [] \<Longrightarrow> \<not> P (hd ys) \<Longrightarrow> takeWhile P ys = []"
  by (cases ys) auto

lemma mem_dropWhile: "x \<in> set xs \<Longrightarrow> \<not> P x \<Longrightarrow> x \<in> set (dropWhile P xs)"
  by (induction xs) auto

lemma HTTP_HEADER_LINE_REGEX_accepts:
  assumes name: "isHeaderName name"
    and ws: "list_all isWhiteSpace ws0" "list_all isWhiteSpace ws1"
            "list_all isWhiteSpace ws2" "list_all isWhiteSpace ws3"
    and v: "v \<noteq> []" "\<not> isWhiteSpace (hd v)" "\<not> isWhiteSpace (last v)" "CHR 0x22 \<notin> set v"
  shows "HTTP_HEADER_LINE_REGEX_exec (ws0 @ name @ ws1 @ CHR '':'' # ws2 @ v @ ws3) = Some (name, v)"
proof -
  let ?rest = "ws1 @ CHR '':'' # ws2 @ v @ ws3"
  have nch: "n \<in> set name \<Longrightarrow> isHeaderNameChar n" for n
    using isHeaderName_chars[OF name] by (simp add: list_all_iff)
  have nne: "name \<noteq> []" using isHeaderName_chars[OF name] by simp
  have s1: "dropWhile isWhiteSpace (ws0 @ name @ ?rest) = name @ ?rest"
  proof -
    have "dropWhile isWhiteSpace (ws0 @ name @ ?rest) = dropWhile isWhiteSpace (name @ ?rest)"
      using ws(1) by (simp add: list_all_iff dropWhile_append2)
    also have "\<dots> = name @ ?rest"
      using nne nch[of "hd name"] by (intro dropWhile_stop) (auto simp: nameChar_not_space)
    finally show ?thesis .
  qed
  have colon: "\<not> isHeaderNameChar CHR '':''" "\<not> isWhiteSpace CHR '':''"
    by (simp_all add: char_defs)
  have hd_rest: "?rest \<noteq> [] \<and> \<not> isHeaderNameChar (hd ?rest)"
    using ws(2) colon nameChar_not_space by (cases ws1) auto
  have tk: "takeWhile isHeaderNameChar (name @ ?rest) = name"
    using nch hd_rest by (simp add: takeWhile_append2 takeWhile_stop del: append_assoc)
  have dr: "dropWhile isHeaderNameChar (name @ ?rest) = ?rest"
    using nch hd_rest by (simp add: dropWhile_append2 dropWhile_stop del: append_assoc)
  have s2: "dropWhile isWhiteSpace ?rest = CHR '':'' # ws2 @ v @ ws3"
    using ws(2) colon by (simp add: list_all_iff dropWhile_append2)
  have s4: "dropWhile isWhiteSpace (ws2 @ v @ ws3) = v @ ws3"
  proof -
    have "dropWhile isWhiteSpace (ws2 @ v @ ws3) = dropWhile isWhiteSpace (v @ ws3)"
      using ws(3) by (simp add: list_all_iff dropWhile_append2)
    also have "\<dots> = v @ ws3" using v(1,2) by (intro dropWhile_stop) auto
    finally show ?thesis .
  qed
  have val: "rev (dropWhile isWhiteSpace (rev (v @ ws3))) = v"
  proof -
    have "dropWhile isWhiteSpace (rev ws3 @ rev v) = dropWhile isWhiteSpace (rev v)"
      using ws(4) by (intro dropWhile_append2) (simp add: list_all_iff)
    also have "\<dots> = rev v"
      using v(1,3) by (intro dropWhile_stop) (auto simp: hd_rev)
    finally show ?thesis by simp
  qed
  have ne: "(v @ ws3 = []) = False" using v(1) by simp
  have nq: "(CHR 0x22 \<in> set v) = False" using v(4) by simp
  have nm: "isHeaderName name = True" using name by simp
  show ?thesis
    unfolding HTTP_HEADER_LINE_REGEX_exec_def
    by (simp only: Let_def s1 tk dr s2 s4 val ne nq nm list.case if_True if_False simp_thms)
qed

lemma HTTP_HEADER_LINE_REGEX_quote:
  assumes "CHR 0x22 \<in> set l"
  shows "HTTP_HEADER_LINE_REGEX_exec l = None"
proof -
  let ?q = "CHR 0x22"
  have nq: "\<not> isWhiteSpace ?q" "\<not> isHeaderNameChar ?q"
    by (simp_all add: char_defs)
  define s2 where
    "s2 = dropWhile isWhiteSpace (dropWhile isHeaderNameChar (dropWhile isWhiteSpace l))"
  have q2: "?q \<in> set s2"
    unfolding s2_def using assms nq by (intro mem_dropWhile) auto
  show ?thesis
  proof (cases s2)
    case Nil
    then show ?thesis using q2 by simp
  next
    case (Cons c s3)
    show ?thesis
    proof (cases "c = CHR '':''")
      case False
      then show ?thesis
        unfolding HTTP_HEADER_LINE_REGEX_exec_def using Cons s2_def by (simp add: Let_def)
    next
      case True
      then have "?q \<in> set s3" using q2 Cons by auto
      then have q4: "?q \<in> set (dropWhile isWhiteSpace s3)"
        using nq by (intro mem_dropWhile) auto
      then have "?q \<in> set (dropWhile isWhiteSpace (rev (dropWhile isWhiteSpace s3)))"
        using nq by (intro mem_dropWhile) auto
      then have qv: "(?q \<in> set (rev (dropWhile isWhiteSpace (rev (dropWhile isWhiteSpace s3)))))
          = True"
        by simp
      have ne: "(dropWhile isWhiteSpace s3 = []) = False"
        using q4 by (metis list.set(1) empty_iff)
      have eq: "dropWhile isWhiteSpace (dropWhile isHeaderNameChar (dropWhile isWhiteSpace l))
          = CHR '':'' # s3"
        using Cons True s2_def by simp
      show ?thesis
        unfolding HTTP_HEADER_LINE_REGEX_exec_def
        by (simp only: Let_def eq qv ne list.case if_True if_False simp_thms if_cancel)
    qed
  qed
qed


lemma parseHeaderLines_first_bad:
  assumes "\<forall>x\<in>set pre. x = [] \<or> HTTP_HEADER_LINE_REGEX_exec x \<noteq> None"
    and "l \<noteq> []" and "HTTP_HEADER_LINE_REGEX_exec l = None"
  shows "parseHeaderLines t (pre @ l # post) = Inl (InvalidHeaderLine l)"
  using assms by (induction pre arbitrary: t) auto

lemma parseHeaderLines_all_good:
  assumes "\<forall>x\<in>set ls. x = [] \<or> HTTP_HEADER_LINE_REGEX_exec x \<noteq> None"
  shows "\<exists>r. parseHeaderLines t ls = Inr r"
  using assms by (induction ls arbitrary: t) auto

lemma parseHeaderLines_some_bad:
  assumes "l \<in> set ls" and "l \<noteq> []" and "HTTP_HEADER_LINE_REGEX_exec l = None"
  shows "\<exists>bad. parseHeaderLines t ls = Inl (InvalidHeaderLine bad)"
  using assms
proof (induction ls arbitrary: t)
  case Nil
  then show ?case by simp
next
  case (Cons a ls)
  show ?case
  proof (cases "a = []")
    case True
    then show ?thesis using Cons by auto
  next
    case False
    show ?thesis
    proof (cases "HTTP_HEADER_LINE_REGEX_exec a")
      case None
      then show ?thesis using False by simp
    next
      case (Some nv)
      then have "l \<in> set ls" using Cons.prems by auto
      then show ?thesis using Cons Some False by (cases nv) simp
    qed
  qed
qed

lemma headerLines_empty: "headerLines [] = [[]]"
  by (simp add: headerLines_def trim_def)

lemma HTTP_HEADER_LINE_REGEX_groups:
  assumes "HTTP_HEADER_LINE_REGEX_exec l = Some (n, v)"
  shows "isHeaderName n \<and> v \<noteq> [] \<and> CHR 0x22 \<notin> set v"
proof -
  define s1 where "s1 = dropWhile isWhiteSpace l"
  define s2 where "s2 = dropWhile isWhiteSpace (dropWhile isHeaderNameChar s1)"
  have m: "(if \<not> isHeaderName (takeWhile isHeaderNameChar s1) then None
            else case s2 of [] \<Rightarrow> None
              | c # s3 \<Rightarrow> if c \<noteq> CHR '':'' then None
                  else if dropWhile isWhiteSpace s3 = []
                       then (if s3 = [] then None
                             else Some (takeWhile isHeaderNameChar s1, [last s3]))
                       else if CHR 0x22 \<in> set (rev (dropWhile isWhiteSpace
                                 (rev (dropWhile isWhiteSpace s3))))
                            then None
                            else Some (takeWhile isHeaderNameChar s1,
                                   rev (dropWhile isWhiteSpace (rev (dropWhile isWhiteSpace s3)))))
           = Some (n, v)"
    using assms unfolding HTTP_HEADER_LINE_REGEX_exec_def Let_def s1_def s2_def .
  then have nm: "isHeaderName (takeWhile isHeaderNameChar s1)"
    by (simp split: if_splits)
  from m nm obtain s3 where s2: "s2 = CHR '':'' # s3"
    by (cases s2) (auto split: if_splits)
  show ?thesis
  proof (cases "dropWhile isWhiteSpace s3 = []")
    case True
    then have all: "\<forall>x\<in>set s3. isWhiteSpace x" by simp
    from m nm s2 True have s3: "s3 \<noteq> []" and nv: "n = takeWhile isHeaderNameChar s1" "v = [last s3]"
      by (auto split: if_splits)
    have "isWhiteSpace (last s3)" using all s3 by simp
    then have "last s3 \<noteq> CHR 0x22" by (auto simp: isWhiteSpace_def)
    then show ?thesis using nm nv by simp
  next
    case False
    let ?v = "rev (dropWhile isWhiteSpace (rev (dropWhile isWhiteSpace s3)))"
    from m nm s2 False have q: "CHR 0x22 \<notin> set ?v" and nv: "n = takeWhile isHeaderNameChar s1" "v = ?v"
      by (auto simp del: set_rev dropWhile_eq_Nil_conv split: if_splits)
    have "hd (dropWhile isWhiteSpace s3) \<in> set (dropWhile isWhiteSpace s3)"
      using False by (simp del: dropWhile_eq_Nil_conv)
    moreover have "\<not> isWhiteSpace (hd (dropWhile isWhiteSpace s3))"
      using False hd_dropWhile by (metis (full_types))
    ultimately have "?v \<noteq> []"
      by (auto simp del: dropWhile_eq_Nil_conv simp: dropWhile_eq_Nil_conv[of isWhiteSpace "rev _"])
    then show ?thesis using nm nv q by simp
  qed
qed


lemma splitOn_absent: "d \<notin> set s \<Longrightarrow> splitOn d s = [s]"
  by (induction s) auto

lemma trim_padded:
  assumes "list_all isWhiteSpace ws0" and "list_all isWhiteSpace ws3"
    and "x \<noteq> []" and "\<not> isWhiteSpace (hd x)" and "\<not> isWhiteSpace (last x)"
  shows "trim (ws0 @ x @ ws3) = x"
proof -
  have "dropWhile isWhiteSpace (ws0 @ x @ ws3) = dropWhile isWhiteSpace (x @ ws3)"
    using assms(1) by (intro dropWhile_append2) (simp add: list_all_iff)
  also have "\<dots> = x @ ws3"
    using assms(3,4) by (intro dropWhile_stop) auto
  finally have a: "dropWhile isWhiteSpace (ws0 @ x @ ws3) = x @ ws3" .
  have "dropWhile isWhiteSpace (rev ws3 @ rev x) = dropWhile isWhiteSpace (rev x)"
    using assms(2) by (intro dropWhile_append2) (simp add: list_all_iff)
  also have "\<dots> = rev x"
    using assms(3,5) by (intro dropWhile_stop) (auto simp: hd_rev)
  finally have "rev (dropWhile isWhiteSpace (rev (x @ ws3))) = x" by simp
  then show ?thesis unfolding trim_def a .
qed

lemma headerLines_single:
  assumes "CHR 0x0A \<notin> set s" and "CHR 0x0D \<notin> set s"
  shows "headerLines s = [trim s]"
proof -
  have "filter (\<lambda>c. c \<noteq> CHR 0x0D) s = s"
    using assms(2) by (intro filter_True) auto
  then show ?thesis
    unfolding headerLines_def using assms(1) by (simp add: splitOn_absent)
qed

lemma parseWgetHeadersInto_line:
  assumes name: "isHeaderName name"
    and ws: "list_all isWhiteSpace ws0" "list_all isWhiteSpace ws1"
            "list_all isWhiteSpace ws2" "list_all isWhiteSpace ws3"
    and v: "v \<noteq> []" "\<not> isWhiteSpace (hd v)" "\<not> isWhiteSpace (last v)" "CHR 0x22 \<notin> set v"
    and nl: "CHR 0x0A \<notin> set (ws0 @ name @ ws1 @ CHR '':'' # ws2 @ v @ ws3)"
            "CHR 0x0D \<notin> set (ws0 @ name @ ws1 @ CHR '':'' # ws2 @ v @ ws3)"
  shows "parseWgetHeadersInto t (ws0 @ name @ ws1 @ CHR '':'' # ws2 @ v @ ws3)
           = Inr (AList.update name v t)"
proof -
  let ?x = "name @ ws1 @ CHR '':'' # ws2 @ v"
  let ?s = "ws0 @ name @ ws1 @ CHR '':'' # ws2 @ v @ ws3"
  have nne: "name \<noteq> []" and nch: "list_all isHeaderNameChar name"
    using isHeaderName_chars[OF name] by simp_all
  have "isHeaderNameChar (hd name)" using nne nch by (cases name) simp_all
  then have h: "\<not> isWhiteSpace (hd ?x)" using nne nameChar_not_space by simp
  have l: "\<not> isWhiteSpace (last ?x)" using v(1,3) by simp
  have "trim (ws0 @ ?x @ ws3) = ?x"
    using ws(1,4) h l nne by (intro trim_padded) simp_all
  then have tr: "trim ?s = ?x" by simp
  have lines: "headerLines ?s = [?x]"
    using headerLines_single[OF nl] tr by simp
  have ex: "HTTP_HEADER_LINE_REGEX_exec ?x = Some (name, v)"
    using HTTP_HEADER_LINE_REGEX_accepts[OF name _ ws(2,3) _ v, of "[]" "[]"] by simp
  have "?s \<noteq> []" using nne by simp
  then have "parseWgetHeadersInto t ?s = parseHeaderLines t [?x]"
    unfolding parseWgetHeadersInto_def lines by (simp only: if_False)
  also have "\<dots> = Inr (AList.update name v t)"
    using ex nne by simp
  finally show ?thesis .
qed

lemma parseWgetHeadersInto_first_bad:
  assumes "headerLines hs = pre @ l # post"
    and "\<forall>x\<in>set pre. x = [] \<or> HTTP_HEADER_LINE_REGEX_exec x \<noteq> None"
    and "l \<noteq> []" and "HTTP_HEADER_LINE_REGEX_exec l = None"
  shows "parseWgetHeadersInto t hs = Inl (InvalidHeaderLine l)"
proof -
  have "hs \<noteq> []"
  proof
    assume "hs = []"
    then have "pre @ l # post = [[]]" using assms(1) headerLines_empty by simp
    then show False using assms(3) by (cases pre) auto
  qed
  then show ?thesis
    unfolding parseWgetHeadersInto_def
    using parseHeaderLines_first_bad[OF assms(2,3,4)] assms(1) by simp
qed

lemma parseWgetHeadersInto_some_bad:
  assumes "l \<in> set (headerLines hs)" and "l \<noteq> []" and "HTTP_HEADER_LINE_REGEX_exec l = None"
  shows "\<exists>bad. parseWgetHeadersInto t hs = Inl (InvalidHeaderLine bad)"
proof -
  have "hs \<noteq> []" using assms(1,2) headerLines_empty by auto
  then show ?thesis
    unfolding parseWgetHeadersInto_def
    using parseHeaderLines_some_bad[OF assms] by simp
qed

lemma parseWgetHeadersInto_all_good:
  assumes "\<forall>x\<in>set (headerLines hs). x = [] \<or> HTTP_HEADER_LINE_REGEX_exec x \<noteq> None"
  shows "\<exists>r. parseWgetHeadersInto t hs = Inr r"
  unfolding parseWgetHeadersInto_def using parseHeaderLines_all_good[OF assms] by simp

lemma last_dropWhile: "dropWhile P xs \<noteq> [] \<Longrightarrow> last (dropWhile P xs) = last xs"
  by (induction xs) (auto split: if_splits)

lemma trim_ends:
  "trim s = [] \<or> (\<not> isWhiteSpace (hd (trim s)) \<and> \<not> isWhiteSpace (last (trim s)))"
proof (cases "trim s = []")
  case True
  then show ?thesis by simp
next
  case False
  let ?a = "dropWhile isWhiteSpace s"
  let ?b = "dropWhile isWhiteSpace (rev ?a)"
  have t: "trim s = rev ?b" by (simp add: trim_def)
  have b: "?b \<noteq> []" using False t by simp
  have a: "?a \<noteq> []"
  proof
    assume "?a = []"
    then have "?b = []" by (simp only: rev.simps dropWhile.simps)
    then show False using b by (simp only: simp_thms)
  qed
  have "\<not> isWhiteSpace (hd ?b)" using b hd_dropWhile by blast
  then have l: "\<not> isWhiteSpace (last (trim s))" using t b by (simp add: last_rev)
  have "last ?b = last (rev ?a)" using b by (rule last_dropWhile)
  then have "hd (trim s) = hd ?a" using t a b by (simp add: hd_rev last_rev)
  moreover have "\<not> isWhiteSpace (hd ?a)" using a hd_dropWhile by blast
  ultimately show ?thesis using l by simp
qed

lemma headerLines_trimmed:
  assumes "l \<in> set (headerLines hs)"
  shows "l = [] \<or> (\<not> isWhiteSpace (hd l) \<and> \<not> isWhiteSpace (last l))"
  using assms trim_ends by (auto simp: headerLines_def)

lemma HTTP_HEADER_LINE_REGEX_shape:
  assumes m: "HTTP_HEADER_LINE_REGEX_exec l = Some (n, w)"
    and e: "l = [] \<or> (\<not> isWhiteSpace (hd l) \<and> \<not> isWhiteSpace (last l))"
  shows "\<exists>ws1 ws2. l = n @ ws1 @ CHR '':'' # ws2 @ w
           \<and> list_all isWhiteSpace ws1 \<and> list_all isWhiteSpace ws2
           \<and> \<not> isWhiteSpace (hd w) \<and> \<not> isWhiteSpace (last w)"
proof -
  have ne: "l \<noteq> []"
  proof
    assume "l = []"
    then show False using m by (simp add: HTTP_HEADER_LINE_REGEX_exec_def isHeaderName_def)
  qed
  then have ends: "\<not> isWhiteSpace (hd l)" "\<not> isWhiteSpace (last l)" using e by simp_all
  have s1: "dropWhile isWhiteSpace l = l" using ne ends(1) by (rule dropWhile_stop)
  define r1 where "r1 = dropWhile isHeaderNameChar l"
  define s2 where "s2 = dropWhile isWhiteSpace r1"
  have eq: "(if \<not> isHeaderName (takeWhile isHeaderNameChar l) then None
            else case s2 of [] \<Rightarrow> None
              | c # s3 \<Rightarrow> if c \<noteq> CHR '':'' then None
                  else if dropWhile isWhiteSpace s3 = []
                       then (if s3 = [] then None
                             else Some (takeWhile isHeaderNameChar l, [last s3]))
                       else if CHR 0x22 \<in> set (rev (dropWhile isWhiteSpace
                                 (rev (dropWhile isWhiteSpace s3))))
                            then None
                            else Some (takeWhile isHeaderNameChar l,
                                   rev (dropWhile isWhiteSpace (rev (dropWhile isWhiteSpace s3)))))
           = Some (n, w)"
    using m unfolding HTTP_HEADER_LINE_REGEX_exec_def Let_def s1 s2_def r1_def .
  then have nm: "isHeaderName (takeWhile isHeaderNameChar l)"
    by (simp split: if_splits)
  from eq nm obtain s3 where s2: "s2 = CHR '':'' # s3"
    by (cases s2) (auto split: if_splits)
  have l1: "l = takeWhile isHeaderNameChar l @ r1"
    unfolding r1_def by simp
  have r1: "r1 = takeWhile isWhiteSpace r1 @ CHR '':'' # s3"
    using s2 unfolding s2_def by (metis takeWhile_dropWhile_id)
  have last_l: "s3 \<noteq> [] \<Longrightarrow> last l = last s3"
    using l1 r1 by (metis last_appendR last_ConsR list.distinct(1) append_is_Nil_conv)
  let ?s4 = "dropWhile isWhiteSpace s3"
  have s4: "?s4 \<noteq> []"
  proof
    assume z: "?s4 = []"
    then have all: "\<forall>x\<in>set s3. isWhiteSpace x" by simp
    from eq nm s2 z have "s3 \<noteq> []" by (auto split: if_splits)
    then have "isWhiteSpace (last s3)" "last l = last s3" using all last_l by simp_all
    then show False using ends(2) by simp
  qed
  then have s3: "s3 \<noteq> []" by auto
  have ls4: "last ?s4 = last l" using last_dropWhile[OF s4] last_l[OF s3] by simp
  have "dropWhile isWhiteSpace (rev ?s4) = rev ?s4"
    using s4 ls4 ends(2) by (intro dropWhile_stop) (simp_all add: hd_rev)
  then have v: "rev (dropWhile isWhiteSpace (rev ?s4)) = ?s4" by simp
  from eq nm s2 s4 have nv0: "n = takeWhile isHeaderNameChar l"
      "w = rev (dropWhile isWhiteSpace (rev ?s4))"
    by (auto simp del: dropWhile_eq_Nil_conv split: if_splits)
  have nv: "n = takeWhile isHeaderNameChar l" "w = ?s4"
    using nv0 by (simp_all only: v)
  have hw: "\<not> isWhiteSpace (hd w)" unfolding nv using s4 hd_dropWhile by blast
  have lw: "\<not> isWhiteSpace (last w)" unfolding nv using ls4 ends(2) by simp
  have s3': "s3 = takeWhile isWhiteSpace s3 @ w" unfolding nv by simp
  have "l = n @ takeWhile isWhiteSpace r1 @ CHR '':'' # takeWhile isWhiteSpace s3 @ w"
    using l1 r1 s3' nv(1) by metis
  moreover have "list_all isWhiteSpace (takeWhile isWhiteSpace r1)"
    "list_all isWhiteSpace (takeWhile isWhiteSpace s3)"
    by (auto simp: list_all_iff dest: set_takeWhileD)
  ultimately show ?thesis using hw lw by blast
qed

lemma HTTP_HEADER_LINE_REGEX_exec_iff:
  assumes "l = [] \<or> (\<not> isWhiteSpace (hd l) \<and> \<not> isWhiteSpace (last l))"
  shows "HTTP_HEADER_LINE_REGEX_exec l = Some (n, w) \<longleftrightarrow>
     (\<exists>ws1 ws2. l = n @ ws1 @ CHR '':'' # ws2 @ w
        \<and> isHeaderName n \<and> list_all isWhiteSpace ws1 \<and> list_all isWhiteSpace ws2
        \<and> w \<noteq> [] \<and> \<not> isWhiteSpace (hd w) \<and> \<not> isWhiteSpace (last w)
        \<and> CHR 0x22 \<notin> set w)"
proof
  assume m: "HTTP_HEADER_LINE_REGEX_exec l = Some (n, w)"
  then have g: "isHeaderName n \<and> w \<noteq> [] \<and> CHR 0x22 \<notin> set w"
    by (rule HTTP_HEADER_LINE_REGEX_groups)
  from HTTP_HEADER_LINE_REGEX_shape[OF m assms] obtain ws1 ws2
    where "l = n @ ws1 @ CHR '':'' # ws2 @ w" "list_all isWhiteSpace ws1"
      "list_all isWhiteSpace ws2" "\<not> isWhiteSpace (hd w)" "\<not> isWhiteSpace (last w)"
    by blast
  then show "\<exists>ws1 ws2. l = n @ ws1 @ CHR '':'' # ws2 @ w
        \<and> isHeaderName n \<and> list_all isWhiteSpace ws1 \<and> list_all isWhiteSpace ws2
        \<and> w \<noteq> [] \<and> \<not> isWhiteSpace (hd w) \<and> \<not> isWhiteSpace (last w)
        \<and> CHR 0x22 \<notin> set w"
    using g by blast
next
  assume "\<exists>ws1 ws2. l = n @ ws1 @ CHR '':'' # ws2 @ w
        \<and> isHeaderName n \<and> list_all isWhiteSpace ws1 \<and> list_all isWhiteSpace ws2
        \<and> w \<noteq> [] \<and> \<not> isWhiteSpace (hd w) \<and> \<not> isWhiteSpace (last w)
        \<and> CHR 0x22 \<notin> set w"
  then obtain ws1 ws2 where l: "l = n @ ws1 @ CHR '':'' # ws2 @ w"
    and p: "isHeaderName n" "list_all isWhiteSpace ws1" "list_all isWhiteSpace ws2"
      "w \<noteq> []" "\<not> isWhiteSpace (hd w)" "\<not> isWhiteSpace (last w)" "CHR 0x22 \<notin> set w"
    by blast
  have "HTTP_HEADER_LINE_REGEX_exec ([] @ n @ ws1 @ CHR '':'' # ws2 @ w @ []) = Some (n, w)"
    using p by (intro HTTP_HEADER_LINE_REGEX_accepts) simp_all
  then show "HTTP_HEADER_LINE_REGEX_exec l = Some (n, w)" unfolding l by simp
qed

section \<open>Claim C7: what the header block parser accepts\<close>

text \<open>
  C7, amended. A line is accepted exactly when, after trimming, it reads: a name, optional
  white space, a colon, optional white space, a value. The name is \<^verbatim>\<open>Cookie\<close>,
  \<^verbatim>\<open>Authorization\<close> or \<^verbatim>\<open>Accept\<close> in any case, or letters and digits followed by a
  hyphen and at least one more letter, digit or hyphen; the value is not empty and has no
  double quote. Such a line stores the value, trimmed, under the name. The two examples of the
  specification hold. The first non-blank line that does not match makes the whole parse fail
  with an error naming that line as trimmed, and a block whose non-blank lines all match is
  parsed. Both directions are stated: for a line of the block, as the parser trims it, the
  pattern matches with a given name and value if and only if the line is that name, white
  space, a colon, white space and that value; so a line such as \<^verbatim>\<open>x-foo=1\<close>, which has no
  colon, is rejected.
\<close>

theorem header_block_parsing:
  "(isHeaderName name \<and> list_all isWhiteSpace ws0 \<and> list_all isWhiteSpace ws1
      \<and> list_all isWhiteSpace ws2 \<and> list_all isWhiteSpace ws3
      \<and> v \<noteq> [] \<and> \<not> isWhiteSpace (hd v) \<and> \<not> isWhiteSpace (last v) \<and> CHR 0x22 \<notin> set v
      \<and> CHR 0x0A \<notin> set (ws0 @ name @ ws1 @ CHR '':'' # ws2 @ v @ ws3)
      \<and> CHR 0x0D \<notin> set (ws0 @ name @ ws1 @ CHR '':'' # ws2 @ v @ ws3)
    \<longrightarrow> parseWgetHeadersInto t (ws0 @ name @ ws1 @ CHR '':'' # ws2 @ v @ ws3)
          = Inr (AList.update name v t))
   \<and> (HTTP_HEADER_LINE_REGEX_exec l = Some (n, w)
        \<longrightarrow> isHeaderName n \<and> w \<noteq> [] \<and> CHR 0x22 \<notin> set w)
   \<and> parseWgetHeadersInto [] (''x-foo: 123'' @ [CHR 0x0A] @ ''x-bar:abc'')
       = Inr [(''x-foo'', ''123''), (''x-bar'', ''abc'')]
   \<and> parseWgetHeadersInto [] ''baz: 666'' = Inl (InvalidHeaderLine ''baz: 666'')
   \<and> (headerLines hs = pre @ bad # post
        \<and> (\<forall>x\<in>set pre. x = [] \<or> HTTP_HEADER_LINE_REGEX_exec x \<noteq> None)
        \<and> bad \<noteq> [] \<and> HTTP_HEADER_LINE_REGEX_exec bad = None
      \<longrightarrow> parseWgetHeadersInto t hs = Inl (InvalidHeaderLine bad))
   \<and> ((\<forall>x\<in>set (headerLines hs). x = [] \<or> HTTP_HEADER_LINE_REGEX_exec x \<noteq> None)
      \<longrightarrow> (\<exists>r. parseWgetHeadersInto t hs = Inr r))
   \<and> (line \<in> set (headerLines block)
      \<longrightarrow> (HTTP_HEADER_LINE_REGEX_exec line = Some (key, val) \<longleftrightarrow>
             (\<exists>sp1 sp2. line = key @ sp1 @ CHR '':'' # sp2 @ val
                \<and> isHeaderName key \<and> list_all isWhiteSpace sp1 \<and> list_all isWhiteSpace sp2
                \<and> val \<noteq> [] \<and> \<not> isWhiteSpace (hd val) \<and> \<not> isWhiteSpace (last val)
                \<and> CHR 0x22 \<notin> set val)))
   \<and> parseWgetHeadersInto [] ''x-foo=1'' = Inl (InvalidHeaderLine ''x-foo=1'')"
proof -
  have a: "isHeaderName name \<and> list_all isWhiteSpace ws0 \<and> list_all isWhiteSpace ws1
      \<and> list_all isWhiteSpace ws2 \<and> list_all isWhiteSpace ws3
      \<and> v \<noteq> [] \<and> \<not> isWhiteSpace (hd v) \<and> \<not> isWhiteSpace (last v) \<and> CHR 0x22 \<notin> set v
      \<and> CHR 0x0A \<notin> set (ws0 @ name @ ws1 @ CHR '':'' # ws2 @ v @ ws3)
      \<and> CHR 0x0D \<notin> set (ws0 @ name @ ws1 @ CHR '':'' # ws2 @ v @ ws3)
    \<longrightarrow> parseWgetHeadersInto t (ws0 @ name @ ws1 @ CHR '':'' # ws2 @ v @ ws3)
          = Inr (AList.update name v t)"
    using parseWgetHeadersInto_line[of name ws0 ws1 ws2 ws3 v t] by blast
  have b: "HTTP_HEADER_LINE_REGEX_exec l = Some (n, w)
        \<longrightarrow> isHeaderName n \<and> w \<noteq> [] \<and> CHR 0x22 \<notin> set w"
    using HTTP_HEADER_LINE_REGEX_groups[of l n w] by blast
  have c: "parseWgetHeadersInto [] (''x-foo: 123'' @ [CHR 0x0A] @ ''x-bar:abc'')
       = Inr [(''x-foo'', ''123''), (''x-bar'', ''abc'')]"
    by (simp add: header_defs char_defs)
  have d: "parseWgetHeadersInto [] ''baz: 666'' = Inl (InvalidHeaderLine ''baz: 666'')"
    by (simp add: header_defs char_defs)
  have e: "headerLines hs = pre @ bad # post
        \<and> (\<forall>x\<in>set pre. x = [] \<or> HTTP_HEADER_LINE_REGEX_exec x \<noteq> None)
        \<and> bad \<noteq> [] \<and> HTTP_HEADER_LINE_REGEX_exec bad = None
      \<longrightarrow> parseWgetHeadersInto t hs = Inl (InvalidHeaderLine bad)"
    using parseWgetHeadersInto_first_bad[of hs pre bad post t] by blast
  have f: "(\<forall>x\<in>set (headerLines hs). x = [] \<or> HTTP_HEADER_LINE_REGEX_exec x \<noteq> None)
      \<longrightarrow> (\<exists>r. parseWgetHeadersInto t hs = Inr r)"
    using parseWgetHeadersInto_all_good[of hs t] by blast
  have g: "line \<in> set (headerLines block)
      \<longrightarrow> (HTTP_HEADER_LINE_REGEX_exec line = Some (key, val) \<longleftrightarrow>
             (\<exists>sp1 sp2. line = key @ sp1 @ CHR '':'' # sp2 @ val
                \<and> isHeaderName key \<and> list_all isWhiteSpace sp1 \<and> list_all isWhiteSpace sp2
                \<and> val \<noteq> [] \<and> \<not> isWhiteSpace (hd val) \<and> \<not> isWhiteSpace (last val)
                \<and> CHR 0x22 \<notin> set val))"
    using HTTP_HEADER_LINE_REGEX_exec_iff[OF headerLines_trimmed, of line block key val]
    by (intro impI)
  have h: "parseWgetHeadersInto [] ''x-foo=1'' = Inl (InvalidHeaderLine ''x-foo=1'')"
    by (simp add: header_defs char_defs)
  show ?thesis
    by (intro conjI) (fact a, fact b, fact c, fact d, fact e, fact f, fact g, fact h)
qed

text \<open>C7, witness: the theorem at a padded \<^verbatim>\<open>Accept-Language\<close> line, at a matching line,
  and at two blocks, one with a malformed second line.\<close>

theorem header_block_parsing_witness:
  "parseWgetHeadersInto [(''User-Agent'', ''node.js'')] (''  '' @ ''Accept-Language'' @ ''  '' @ CHR '':'' # ''  '' @ ''en-US, en'' @ ''  '')
     = Inr (AList.update ''Accept-Language'' ''en-US, en'' [(''User-Agent'', ''node.js'')])
   \<and> HTTP_HEADER_LINE_REGEX_exec ''X-Token: sometoken'' = Some (''X-Token'', ''sometoken'')
   \<and> isHeaderName ''X-Token''
   \<and> headerLines (''x-foo: 123'' @ [CHR 0x0A] @ '' baz: 666'' @ [CHR 0x0A] @ ''x-go:now'')
       = [''x-foo: 123''] @ ''baz: 666'' # [''x-go:now'']
   \<and> parseWgetHeadersInto [(''User-Agent'', ''node.js'')]
        (''x-foo: 123'' @ [CHR 0x0A] @ '' baz: 666'' @ [CHR 0x0A] @ ''x-go:now'')
       = Inl (InvalidHeaderLine ''baz: 666'')
   \<and> (\<exists>r. parseWgetHeadersInto [] (''x-foo: 123'' @ [CHR 0x0A] @ ''x-go:now'') = Inr r)
   \<and> ''x-go:now'' \<in> set (headerLines (''x-foo: 123'' @ [CHR 0x0A] @ ''x-go:now''))
   \<and> HTTP_HEADER_LINE_REGEX_exec ''x-go:now'' = Some (''x-go'', ''now'')"
proof -
  let ?hs = "''x-foo: 123'' @ [CHR 0x0A] @ '' baz: 666'' @ [CHR 0x0A] @ ''x-go:now''"
  let ?ok = "''x-foo: 123'' @ [CHR 0x0A] @ ''x-go:now''"
  note T = header_block_parsing[of "''Accept-Language''" "''  ''" "''  ''" "''  ''" "''  ''"
      "''en-US, en''" "[(''User-Agent'', ''node.js'')]"
      "''X-Token: sometoken''" "''X-Token''" "''sometoken''"
      ?hs "[''x-foo: 123'']" "''baz: 666''" "[''x-go:now'']"]
  note U = header_block_parsing[of _ _ _ _ _ _ "[]" _ _ _ ?ok]
  note V = header_block_parsing[of _ _ _ _ _ _ _ _ _ _ _ _ _ _ "''x-go:now''" ?ok
      "''x-go''" "''now''"]
  have nm: "isHeaderName ''Accept-Language''" by (simp add: header_defs char_defs)
  have A: "isHeaderName ''Accept-Language'' \<and> list_all isWhiteSpace ''  ''
      \<and> list_all isWhiteSpace ''  '' \<and> list_all isWhiteSpace ''  ''
      \<and> list_all isWhiteSpace ''  ''
      \<and> ''en-US, en'' \<noteq> [] \<and> \<not> isWhiteSpace (hd ''en-US, en'')
      \<and> \<not> isWhiteSpace (last ''en-US, en'') \<and> CHR 0x22 \<notin> set ''en-US, en''
      \<and> CHR 0x0A \<notin> set (''  '' @ ''Accept-Language'' @ ''  '' @ CHR '':'' # ''  '' @ ''en-US, en'' @ ''  '')
      \<and> CHR 0x0D \<notin> set (''  '' @ ''Accept-Language'' @ ''  '' @ CHR '':'' # ''  '' @ ''en-US, en'' @ ''  '')"
    using nm by (simp add: isWhiteSpace_def)
  have B: "HTTP_HEADER_LINE_REGEX_exec ''X-Token: sometoken'' = Some (''X-Token'', ''sometoken'')"
    by (simp add: header_defs char_defs)
  have L: "headerLines ?hs = [''x-foo: 123''] @ ''baz: 666'' # [''x-go:now'']"
    by (simp add: headerLines_def trim_def isWhiteSpace_def)
  have x1: "HTTP_HEADER_LINE_REGEX_exec ''x-foo: 123'' \<noteq> None"
    by (simp add: header_defs char_defs)
  have x2: "HTTP_HEADER_LINE_REGEX_exec ''baz: 666'' = None"
    by (simp add: header_defs char_defs)
  have x3: "HTTP_HEADER_LINE_REGEX_exec ''x-go:now'' \<noteq> None"
    by (simp add: header_defs char_defs)
  have E: "headerLines ?hs = [''x-foo: 123''] @ ''baz: 666'' # [''x-go:now'']
        \<and> (\<forall>x\<in>set [''x-foo: 123'']. x = [] \<or> HTTP_HEADER_LINE_REGEX_exec x \<noteq> None)
        \<and> ''baz: 666'' \<noteq> [] \<and> HTTP_HEADER_LINE_REGEX_exec ''baz: 666'' = None"
    using L x1 x2 by simp
  have L2: "headerLines ?ok = [''x-foo: 123'', ''x-go:now'']"
    by (simp add: headerLines_def trim_def isWhiteSpace_def)
  have F: "\<forall>x\<in>set (headerLines ?ok). x = [] \<or> HTTP_HEADER_LINE_REGEX_exec x \<noteq> None"
    using x1 x3 unfolding L2 by simp
  have a: "parseWgetHeadersInto [(''User-Agent'', ''node.js'')] (''  '' @ ''Accept-Language'' @ ''  '' @ CHR '':'' # ''  '' @ ''en-US, en'' @ ''  '')
     = Inr (AList.update ''Accept-Language'' ''en-US, en'' [(''User-Agent'', ''node.js'')])"
    using T[THEN conjunct1, THEN mp, OF A] .
  have b: "isHeaderName ''X-Token''"
    using T[THEN conjunct2, THEN conjunct1, THEN mp, OF B] by (rule conjunct1)
  have e: "parseWgetHeadersInto [(''User-Agent'', ''node.js'')] ?hs
      = Inl (InvalidHeaderLine ''baz: 666'')"
    using T[THEN conjunct2, THEN conjunct2, THEN conjunct2, THEN conjunct2, THEN conjunct1,
            THEN mp, OF E] .
  have f: "\<exists>r. parseWgetHeadersInto [] ?ok = Inr r"
    using U[THEN conjunct2, THEN conjunct2, THEN conjunct2, THEN conjunct2, THEN conjunct2,
            THEN conjunct1, THEN mp, OF F] .
  have M: "''x-go:now'' \<in> set (headerLines ?ok)" unfolding L2 by simp
  have nm2: "isHeaderName ''x-go''" by (simp add: header_defs char_defs)
  have G: "\<exists>sp1 sp2. ''x-go:now'' = ''x-go'' @ sp1 @ CHR '':'' # sp2 @ ''now''
      \<and> isHeaderName ''x-go'' \<and> list_all isWhiteSpace sp1 \<and> list_all isWhiteSpace sp2
      \<and> ''now'' \<noteq> [] \<and> \<not> isWhiteSpace (hd ''now'') \<and> \<not> isWhiteSpace (last ''now'')
      \<and> CHR 0x22 \<notin> set ''now''"
    using nm2 by (intro exI[of _ "[]"]) (simp add: isWhiteSpace_def)
  have g: "HTTP_HEADER_LINE_REGEX_exec ''x-go:now'' = Some (''x-go'', ''now'')"
    using V[THEN conjunct2, THEN conjunct2, THEN conjunct2, THEN conjunct2, THEN conjunct2,
            THEN conjunct2, THEN conjunct1, THEN mp, OF M, THEN iffD2, OF G] .
  show ?thesis by (intro conjI) (fact a, fact B, fact b, fact L, fact e, fact f, fact M, fact g)
qed

text \<open>C7, counterexample to the claim as stated: \<^verbatim>\<open>x-\<close> is a name that contains a hyphen,
  and the line \<^verbatim>\<open>x-: 1\<close> is rejected.\<close>

theorem hyphen_token_name_rejected:
  "parseWgetHeadersInto [] ''x-: 1'' = Inl (InvalidHeaderLine ''x-: 1'')
   \<and> CHR ''-'' \<in> set ''x-''"
  by (simp add: header_defs char_defs)

section \<open>Claim C9: a double quote makes a header line invalid\<close>

text \<open>
  C9. A line that contains a double quote never matches the header pattern, whatever its
  name. A block with such a line fails to parse, and the error names that line when every
  line before it is blank or valid.
\<close>

theorem quoted_header_value_rejected:
  "(CHR 0x22 \<in> set l \<longrightarrow> HTTP_HEADER_LINE_REGEX_exec l = None)
   \<and> (l \<in> set (headerLines hs) \<and> CHR 0x22 \<in> set l
        \<longrightarrow> (\<exists>bad. parseWgetHeadersInto t hs = Inl (InvalidHeaderLine bad)))
   \<and> (headerLines hs = pre @ l # post
        \<and> (\<forall>x\<in>set pre. x = [] \<or> HTTP_HEADER_LINE_REGEX_exec x \<noteq> None)
        \<and> CHR 0x22 \<in> set l
      \<longrightarrow> parseWgetHeadersInto t hs = Inl (InvalidHeaderLine l))"
proof -
  have a: "CHR 0x22 \<in> set l \<longrightarrow> HTTP_HEADER_LINE_REGEX_exec l = None"
    using HTTP_HEADER_LINE_REGEX_quote by blast
  have ne: "CHR 0x22 \<in> set l \<Longrightarrow> l \<noteq> []" by auto
  have b: "l \<in> set (headerLines hs) \<and> CHR 0x22 \<in> set l
        \<longrightarrow> (\<exists>bad. parseWgetHeadersInto t hs = Inl (InvalidHeaderLine bad))"
  proof (intro impI, elim conjE)
    assume "l \<in> set (headerLines hs)" and q: "CHR 0x22 \<in> set l"
    then show "\<exists>bad. parseWgetHeadersInto t hs = Inl (InvalidHeaderLine bad)"
      using HTTP_HEADER_LINE_REGEX_quote[OF q] ne[OF q]
      by (intro parseWgetHeadersInto_some_bad)
  qed
  have c: "headerLines hs = pre @ l # post
        \<and> (\<forall>x\<in>set pre. x = [] \<or> HTTP_HEADER_LINE_REGEX_exec x \<noteq> None)
        \<and> CHR 0x22 \<in> set l
      \<longrightarrow> parseWgetHeadersInto t hs = Inl (InvalidHeaderLine l)"
  proof (intro impI, elim conjE)
    assume "headerLines hs = pre @ l # post"
      and "\<forall>x\<in>set pre. x = [] \<or> HTTP_HEADER_LINE_REGEX_exec x \<noteq> None"
      and q: "CHR 0x22 \<in> set l"
    then show "parseWgetHeadersInto t hs = Inl (InvalidHeaderLine l)"
      using HTTP_HEADER_LINE_REGEX_quote[OF q] ne[OF q]
      by (intro parseWgetHeadersInto_first_bad)
  qed
  show ?thesis by (intro conjI) (fact a, fact b, fact c)
qed

text \<open>C9, witness: the line \<^verbatim>\<open>x-foo: "bar"\<close> after a valid \<^verbatim>\<open>Cookie\<close> line.\<close>

theorem quoted_header_value_rejected_witness:
  "CHR 0x22 \<in> set (''x-foo: '' @ [CHR 0x22] @ ''bar'' @ [CHR 0x22])
   \<and> HTTP_HEADER_LINE_REGEX_exec (''x-foo: '' @ [CHR 0x22] @ ''bar'' @ [CHR 0x22]) = None
   \<and> headerLines (''Cookie: a=b'' @ [CHR 0x0A] @ ''x-foo: '' @ [CHR 0x22] @ ''bar'' @ [CHR 0x22])
       = [''Cookie: a=b''] @ (''x-foo: '' @ [CHR 0x22] @ ''bar'' @ [CHR 0x22]) # []
   \<and> parseWgetHeadersInto []
        (''Cookie: a=b'' @ [CHR 0x0A] @ ''x-foo: '' @ [CHR 0x22] @ ''bar'' @ [CHR 0x22])
       = Inl (InvalidHeaderLine (''x-foo: '' @ [CHR 0x22] @ ''bar'' @ [CHR 0x22]))"
proof -
  let ?l = "''x-foo: '' @ [CHR 0x22] @ ''bar'' @ [CHR 0x22]"
  let ?hs = "''Cookie: a=b'' @ [CHR 0x0A] @ ''x-foo: '' @ [CHR 0x22] @ ''bar'' @ [CHR 0x22]"
  note T = quoted_header_value_rejected[of ?l ?hs "[]" "[''Cookie: a=b'']" "[]"]
  have q: "CHR 0x22 \<in> set ?l" by simp
  have L: "headerLines ?hs = [''Cookie: a=b''] @ ?l # []"
    by (simp add: headerLines_def trim_def isWhiteSpace_def)
  have x1: "HTTP_HEADER_LINE_REGEX_exec ''Cookie: a=b'' \<noteq> None"
    by (simp add: header_defs char_defs)
  have C: "headerLines ?hs = [''Cookie: a=b''] @ ?l # []
        \<and> (\<forall>x\<in>set [''Cookie: a=b'']. x = [] \<or> HTTP_HEADER_LINE_REGEX_exec x \<noteq> None)
        \<and> CHR 0x22 \<in> set ?l"
    using L x1 q by simp
  have a: "HTTP_HEADER_LINE_REGEX_exec ?l = None"
    using T[THEN conjunct1, THEN mp, OF q] .
  have c: "parseWgetHeadersInto [] ?hs = Inl (InvalidHeaderLine ?l)"
    using T[THEN conjunct2, THEN conjunct2, THEN mp, OF C] .
  show ?thesis by (intro conjI) (fact q, fact a, fact L, fact c)
qed

section \<open>Claim C1: the byte budget\<close>

text \<open>
  C1, the code at failing inputs. No token is configured and \<^verbatim>\<open>maxBytes\<close> is 5. The chunk
  that makes the counter reach the budget replaces the output by its own first
  \<open>total - 5\<close> characters (\<^verbatim>\<open>retHtml = chunkData.substring(0, -remainingChars)\<close>): a single
  chunk of 12 characters gives 7 characters, the chunks \<^verbatim>\<open>abc\<close>, \<^verbatim>\<open>defgh\<close> give \<^verbatim>\<open>def\<close>
  and not \<^verbatim>\<open>abcde\<close>, and a body of exactly 5 characters gives the empty string.
\<close>

theorem byte_counter_exceeds_budget:
  "maxHtmlSize ((fieldDefaults TEST1_URL)\<lparr> maxBytes := 5 \<rparr>) = 5
   \<and> scanBody ((fieldDefaults TEST1_URL)\<lparr> maxBytes := 5 \<rparr>) False [''abcdefghijkl''] = ''abcdefg''
   \<and> scanBody ((fieldDefaults TEST1_URL)\<lparr> maxBytes := 5 \<rparr>) False [''abc'', ''defgh''] = ''def''
   \<and> scanBody ((fieldDefaults TEST1_URL)\<lparr> maxBytes := 5 \<rparr>) False [''abcde''] = []"
  by (simp add: scan_defs string_defs)

section \<open>Claim C4: the pending buffer after a failed start token search\<close>

text \<open>
  C4, the code at a failing input. The start token is \<^verbatim>\<open>x\<close>, of length 1, so the buffer
  should be clipped to 0 characters; \<^verbatim>\<open>bufferedData.substr(1 - startTokenLength)\<close> is
  \<^verbatim>\<open>substr(0)\<close> and keeps all of it, chunk after chunk.
\<close>

theorem one_char_start_token_keeps_pending:
  "startTokenLength ((fieldDefaults TEST1_URL)\<lparr> startToken := Some ''x'', chunkBufferSize := 0 \<rparr>) - 1 = 0
   \<and> indexOf ''aaaa'' ''x'' 0 = - 1
   \<and> bufferedData (feedChunks ((fieldDefaults TEST1_URL)\<lparr> startToken := Some ''x'', chunkBufferSize := 0 \<rparr>)
        (initialScanner ((fieldDefaults TEST1_URL)\<lparr> startToken := Some ''x'', chunkBufferSize := 0 \<rparr>) False)
        [''aaaa'']) = ''aaaa''
   \<and> bufferedData (feedChunks ((fieldDefaults TEST1_URL)\<lparr> startToken := Some ''x'', chunkBufferSize := 0 \<rparr>)
        (initialScanner ((fieldDefaults TEST1_URL)\<lparr> startToken := Some ''x'', chunkBufferSize := 0 \<rparr>) False)
        [''aaaa'', ''bbbb'']) = ''aaaabbbb''"
  by (simp add: scan_defs string_defs)

text \<open>For a start token of two or more characters the failed search does clip the buffer
  to a suffix of at most \<open>startTokenLength - 1\<close> characters.\<close>

lemma failed_start_search_clips_pending:
  assumes "\<not> isStartTokenFound st"
    and "indexOf (bufferedData st) (startTokenOf opts) 0 < 0"
    and "2 \<le> startTokenLength opts"
  shows "fst (searchStartToken opts st) = False
     \<and> int (length (bufferedData (snd (searchStartToken opts st)))) \<le> startTokenLength opts - 1
     \<and> suffix (bufferedData (snd (searchStartToken opts st))) (bufferedData st)"
  using assms
  by (auto simp add: searchStartToken_def Let_def substr_def suffix_drop)

section \<open>Claim C5: the stop search floor\<close>





section \<open>Claim C3: the request frequency gate\<close>

text \<open>
  C3, the code at a failing input. The table holds a future instant for the host, the
  configuration is fresh (no redirect, restriction enabled), so the gate rejects with
  \<^verbatim>\<open>Too frequent requests\<close>. The executor does not return after \<^verbatim>\<open>reject\<close>: the request is
  built and sent all the same, and the list of issued exchanges is not empty.
\<close>

theorem rate_limited_request_is_still_issued:
  "fst (validateRequestToHostFrequency 1000 ''foo-bar.nil'' [(''foo-bar.nil'', 2500)]) = False
   \<and> outcome (requestHtml sampleURL 1000 (fieldDefaults TEST1_URL) [(''foo-bar.nil'', 2500)]
        [Response None (Some ''text/html'') [''<html></html>'']]) = Rejected TooFrequentRequests
   \<and> exchanges (requestHtml sampleURL 1000 (fieldDefaults TEST1_URL) [(''foo-bar.nil'', 2500)]
        [Response None (Some ''text/html'') [''<html></html>'']])
       = [\<lparr> reqMethod = ''GET'', reqProtocol = ''http:'', reqHostname = ''foo-bar.nil'',
            reqPort = [], reqPath = ''/test1'', reqTimeout = 5000,
            reqHeaders = [(''User-Agent'', ''node.js'')] \<rparr>]"
  by (simp add: request_defs string_defs fieldDefaults_def TEST1_URL_def)

text \<open>The same for every rejected call whose header block parses: the promise is rejected
  and an exchange is issued.\<close>

lemma rate_limited_request_issued_general:
  assumes "fst (frequencyGate now opts table) = Rejected TooFrequentRequests"
    and "requestHeaders opts = Inr hs"
  shows "outcome (requestHtml newURL now opts table rs) = Rejected TooFrequentRequests
     \<and> exchanges (requestHtml newURL now opts table rs) \<noteq> []"
proof (cases rs)
  case Nil
  then show ?thesis using assms by (simp add: split_beta)
next
  case (Cons r rs')
  then show ?thesis using assms
    by (simp add: split_beta settle_def Let_def split: response.splits sum.splits)
qed

section \<open>URL validation and the redirect step\<close>

lemma toLowerCase_not_terminator: "\<not> isLineTerminator c \<Longrightarrow> \<not> isLineTerminator (toLowerCase c)"
proof (cases "map_of (zip upperLetters lowerLetters) c")
  case None
  then show "\<not> isLineTerminator c \<Longrightarrow> \<not> isLineTerminator (toLowerCase c)"
    by (simp add: toLowerCase_def)
next
  case (Some l)
  then have "l \<in> set lowerLetters"
    by (meson map_of_SomeD set_zip_rightD)
  then have "\<not> isLineTerminator l"
    by (auto simp: lowerLetters_def isLineTerminator_def)
  then show "\<not> isLineTerminator c \<Longrightarrow> \<not> isLineTerminator (toLowerCase c)"
    using Some by (simp add: toLowerCase_def)
qed

lemma endsWith_append: "endsWith (a @ x) x"
  by (simp add: endsWith_def)

lemma UNSUPPORTED_FILENAMES_REGEX_plain:
  assumes "map toLowerCase ext \<in> set [''.jpg'', ''.jpeg'', ''.png'', ''.gif'', ''.avi'']"
  shows "UNSUPPORTED_FILENAMES_REGEX_test (s @ ext)"
proof -
  have "endsWith (map toLowerCase (s @ ext)) (map toLowerCase ext)"
    using endsWith_append[of "map toLowerCase s"] by simp
  moreover have "map toLowerCase ext = ''.jpg'' \<or> map toLowerCase ext = ''.jpeg''
      \<or> map toLowerCase ext = ''.png'' \<or> map toLowerCase ext = ''.gif''
      \<or> map toLowerCase ext = ''.avi''"
    using assms by (simp only: list.set insert_iff empty_iff simp_thms)
  ultimately show ?thesis
    unfolding UNSUPPORTED_FILENAMES_REGEX_test_def Let_def
    by (elim disjE) (simp_all only: simp_thms)
qed

lemma UNSUPPORTED_FILENAMES_REGEX_anychar:
  assumes "map toLowerCase ext \<in> set [''.gif'', ''.mp'', ''.web'']" and "\<not> isLineTerminator c"
  shows "UNSUPPORTED_FILENAMES_REGEX_test (s @ ext @ [c])"
proof -
  let ?l = "map toLowerCase (s @ ext @ [c])"
  have "butlast ?l = map toLowerCase s @ map toLowerCase ext"
    by (simp add: butlast_append)
  then have "endsWith (butlast ?l) (map toLowerCase ext)"
    using endsWith_append[of "map toLowerCase s"] by simp
  moreover have "?l \<noteq> []" by simp
  moreover have "\<not> isLineTerminator (last ?l)"
    using toLowerCase_not_terminator[OF assms(2)] by simp
  ultimately have "endsWithThenAnyChar ?l (map toLowerCase ext)"
    unfolding endsWithThenAnyChar_def by blast
  moreover have "map toLowerCase ext = ''.gif'' \<or> map toLowerCase ext = ''.mp''
      \<or> map toLowerCase ext = ''.web''"
    using assms(1) by (simp only: list.set insert_iff empty_iff simp_thms)
  ultimately show ?thesis
    unfolding UNSUPPORTED_FILENAMES_REGEX_test_def Let_def
    by (elim disjE) (simp_all only: simp_thms)
qed

lemma assertValidUrl_Inr:
  "assertValidUrl newURL s = Inr u \<longleftrightarrow>
     (startsWith s ''http://'' \<or> startsWith s ''https://'')
     \<and> \<not> UNSUPPORTED_FILENAMES_REGEX_test s \<and> newURL s = Some u"
  by (auto simp: assertValidUrl_def HTTP_OR_HTTPS_URL_REGEX_test_def split: option.splits)

lemma assertValidUrl_Inl: "assertValidUrl newURL s = Inl e \<Longrightarrow> e = InvalidUrl"
  by (auto simp: assertValidUrl_def split: option.splits if_splits)

lemma updateForRedirect_Inr:
  assumes "updateForRedirect newURL r opts = Inr opts1"
  shows "assertValidUrl newURL (redirectTarget opts r) = Inr (url opts1)
     \<and> \<not> numberGe (ofInt (int (totalRedirects opts))) (maxRedirects opts)
     \<and> opts1 = opts\<lparr> url := url opts1, totalRedirects := totalRedirects opts + 1 \<rparr>"
  using assms by (auto simp: updateForRedirect_def split: if_splits sum.splits)

lemma numberGe_ofInt: "numberGe (ofInt a) (ofInt b) \<longleftrightarrow> b \<le> a"
  by (simp add: numberGe_def ofInt_def)

lemma updateForRedirect_valid:
  assumes "\<not> numberGe (ofInt (int (totalRedirects opts))) (maxRedirects opts)"
    and "assertValidUrl newURL (redirectTarget opts r) = Inr u"
  shows "updateForRedirect newURL r opts
     = Inr (opts\<lparr> url := u, totalRedirects := totalRedirects opts + 1 \<rparr>)"
  using assms by (simp add: updateForRedirect_def)

lemma updateForRedirect_invalid:
  assumes "\<not> numberGe (ofInt (int (totalRedirects opts))) (maxRedirects opts)"
    and "assertValidUrl newURL (redirectTarget opts r) = Inl e"
  shows "updateForRedirect newURL r opts = Inl InvalidUrl"
  using assms assertValidUrl_Inl[OF assms(2)] by (simp add: updateForRedirect_def)

lemma updateForRedirect_exhausted:
  assumes "numberGe (ofInt (int (totalRedirects opts))) (maxRedirects opts)"
  shows "updateForRedirect newURL r opts = Inl (RedirectLimitExceeded (maxRedirects opts))"
  using assms by (simp add: updateForRedirect_def)

lemma requestHtml_redirect_step:
  assumes "fst (frequencyGate now opts table) = Pending"
    and "requestHeaders opts = Inr hs"
    and "truthy loc"
  shows "outcome (requestHtml newURL now opts table (Response loc ct body # rs))
     = (case updateForRedirect newURL (orEmpty loc) opts of
          Inl err \<Rightarrow> Rejected (ErrorText err)
        | Inr opts1 \<Rightarrow>
            outcome (requestHtml newURL now opts1 (snd (frequencyGate now opts table)) rs))"
    and "exchanges (requestHtml newURL now opts table (Response loc ct body # rs))
     = requestOptsOf opts hs #
       (case updateForRedirect newURL (orEmpty loc) opts of
          Inl err \<Rightarrow> []
        | Inr opts1 \<Rightarrow>
            exchanges (requestHtml newURL now opts1 (snd (frequencyGate now opts table)) rs))"
    and "optsAfter (requestHtml newURL now opts table (Response loc ct body # rs))
     = (case updateForRedirect newURL (orEmpty loc) opts of
          Inl err \<Rightarrow> opts
        | Inr opts1 \<Rightarrow>
            optsAfter (requestHtml newURL now opts1 (snd (frequencyGate now opts table)) rs))"
  using assms by (simp_all add: split_beta settle_def Let_def split: sum.splits)

lemma requestHtml_page:
  assumes "fst (frequencyGate now opts table) = Pending"
    and "requestHeaders opts = Inr hs"
    and "\<not> truthy loc"
    and "CONTENT_TYPE_HTML_REGEX_test (orEmpty ct)"
  shows "outcome (requestHtml newURL now opts table (Response loc ct chunks # rs))
     = Resolved (scanBody opts False chunks)"
    and "exchanges (requestHtml newURL now opts table (Response loc ct chunks # rs))
     = [requestOptsOf opts hs]"
    and "optsAfter (requestHtml newURL now opts table (Response loc ct chunks # rs)) = opts"
  using assms by (simp_all add: split_beta settle_def Let_def)

section \<open>Claim C6: URL validation\<close>

text \<open>
  C6, amended. \<^verbatim>\<open>_assertValidUrl\<close> accepts a string exactly when it starts with \<^verbatim>\<open>http://\<close>
  or \<^verbatim>\<open>https://\<close>, the whole string (not its path) does not end, ignoring case, in
  \<^verbatim>\<open>.jpg\<close>, \<^verbatim>\<open>.jpeg\<close>, \<^verbatim>\<open>.png\<close>, \<^verbatim>\<open>.gif\<close>, \<^verbatim>\<open>.avi\<close> or in \<^verbatim>\<open>.gif\<close>, \<^verbatim>\<open>.mp\<close>, \<^verbatim>\<open>.web\<close>
  followed by one more character, and the URL constructor parses it; it then returns the
  parsed URL. Every other string, in particular every string the URL constructor throws on,
  raises \<^verbatim>\<open>Invalid url\<close>; the code has no check of its own for look-alike hostnames. The
  constructor of the configuration runs this validation on the original URL, and
  \<^verbatim>\<open>updateForRedirect\<close> runs it on every redirect target once the redirect limit has been
  checked, so that a fetch redirected to an invalid target is rejected with \<^verbatim>\<open>Invalid url\<close>.
\<close>

theorem url_validation:
  "(assertValidUrl newURL s = Inr u \<longleftrightarrow>
      (startsWith s ''http://'' \<or> startsWith s ''https://'')
      \<and> \<not> UNSUPPORTED_FILENAMES_REGEX_test s \<and> newURL s = Some u)
   \<and> (assertValidUrl newURL s = Inl e \<longrightarrow> e = InvalidUrl)
   \<and> (map toLowerCase ext \<in> set [''.jpg'', ''.jpeg'', ''.png'', ''.gif'', ''.avi'']
        \<longrightarrow> assertValidUrl newURL (s @ ext) = Inl InvalidUrl)
   \<and> (map toLowerCase ext \<in> set [''.gif'', ''.mp'', ''.web''] \<and> \<not> isLineTerminator c
        \<longrightarrow> assertValidUrl newURL (s @ ext @ [c]) = Inl InvalidUrl)
   \<and> (newURL s = None \<longrightarrow> assertValidUrl newURL s = Inl InvalidUrl)
   \<and> (newScraperOpts newURL s = Inr opts0 \<longrightarrow> assertValidUrl newURL s = Inr (url opts0))
   \<and> (assertValidUrl newURL s = Inl e \<longrightarrow> newScraperOpts newURL s = Inl InvalidUrl)
   \<and> (updateForRedirect newURL r opts = Inr opts1
        \<longrightarrow> assertValidUrl newURL (redirectTarget opts r) = Inr (url opts1))
   \<and> (\<not> numberGe (ofInt (int (totalRedirects opts))) (maxRedirects opts)
        \<and> assertValidUrl newURL (redirectTarget opts r) = Inl e
        \<longrightarrow> updateForRedirect newURL r opts = Inl InvalidUrl)
   \<and> (fst (frequencyGate now opts table) = Pending \<and> requestHeaders opts = Inr hs
        \<and> truthy loc \<and> \<not> numberGe (ofInt (int (totalRedirects opts))) (maxRedirects opts)
        \<and> assertValidUrl newURL (redirectTarget opts (orEmpty loc)) = Inl e
        \<longrightarrow> outcome (requestHtml newURL now opts table (Response loc ct body # rs))
            = Rejected (ErrorText InvalidUrl))"
proof -
  have a: "assertValidUrl newURL s = Inr u \<longleftrightarrow>
      (startsWith s ''http://'' \<or> startsWith s ''https://'')
      \<and> \<not> UNSUPPORTED_FILENAMES_REGEX_test s \<and> newURL s = Some u"
    by (rule assertValidUrl_Inr)
  have b: "assertValidUrl newURL s = Inl e \<longrightarrow> e = InvalidUrl"
    using assertValidUrl_Inl by blast
  have c: "map toLowerCase ext \<in> set [''.jpg'', ''.jpeg'', ''.png'', ''.gif'', ''.avi'']
        \<longrightarrow> assertValidUrl newURL (s @ ext) = Inl InvalidUrl"
  proof
    assume "map toLowerCase ext \<in> set [''.jpg'', ''.jpeg'', ''.png'', ''.gif'', ''.avi'']"
    then have "UNSUPPORTED_FILENAMES_REGEX_test (s @ ext)"
      by (rule UNSUPPORTED_FILENAMES_REGEX_plain)
    then show "assertValidUrl newURL (s @ ext) = Inl InvalidUrl"
      by (simp add: assertValidUrl_def)
  qed
  have d: "map toLowerCase ext \<in> set [''.gif'', ''.mp'', ''.web''] \<and> \<not> isLineTerminator c
        \<longrightarrow> assertValidUrl newURL (s @ ext @ [c]) = Inl InvalidUrl"
  proof (intro impI, elim conjE)
    assume "map toLowerCase ext \<in> set [''.gif'', ''.mp'', ''.web'']" "\<not> isLineTerminator c"
    then have "UNSUPPORTED_FILENAMES_REGEX_test (s @ ext @ [c])"
      by (rule UNSUPPORTED_FILENAMES_REGEX_anychar)
    then show "assertValidUrl newURL (s @ ext @ [c]) = Inl InvalidUrl"
      by (simp add: assertValidUrl_def)
  qed
  have e: "newURL s = None \<longrightarrow> assertValidUrl newURL s = Inl InvalidUrl"
    by (simp add: assertValidUrl_def)
  have f: "newScraperOpts newURL s = Inr opts0 \<longrightarrow> assertValidUrl newURL s = Inr (url opts0)"
    by (auto simp: newScraperOpts_def fieldDefaults_def split: sum.splits)
  have g: "assertValidUrl newURL s = Inl e \<longrightarrow> newScraperOpts newURL s = Inl InvalidUrl"
    using assertValidUrl_Inl[of newURL s e] by (auto simp: newScraperOpts_def)
  have h: "updateForRedirect newURL r opts = Inr opts1
        \<longrightarrow> assertValidUrl newURL (redirectTarget opts r) = Inr (url opts1)"
    using updateForRedirect_Inr by blast
  have i: "\<not> numberGe (ofInt (int (totalRedirects opts))) (maxRedirects opts)
        \<and> assertValidUrl newURL (redirectTarget opts r) = Inl e
        \<longrightarrow> updateForRedirect newURL r opts = Inl InvalidUrl"
    using updateForRedirect_invalid by blast
  have j: "fst (frequencyGate now opts table) = Pending \<and> requestHeaders opts = Inr hs
        \<and> truthy loc \<and> \<not> numberGe (ofInt (int (totalRedirects opts))) (maxRedirects opts)
        \<and> assertValidUrl newURL (redirectTarget opts (orEmpty loc)) = Inl e
        \<longrightarrow> outcome (requestHtml newURL now opts table (Response loc ct body # rs))
            = Rejected (ErrorText InvalidUrl)"
  proof (intro impI, elim conjE)
    assume g: "fst (frequencyGate now opts table) = Pending" and hs: "requestHeaders opts = Inr hs"
      and l: "truthy loc" and t: "\<not> numberGe (ofInt (int (totalRedirects opts))) (maxRedirects opts)"
      and v: "assertValidUrl newURL (redirectTarget opts (orEmpty loc)) = Inl e"
    show "outcome (requestHtml newURL now opts table (Response loc ct body # rs))
            = Rejected (ErrorText InvalidUrl)"
      unfolding requestHtml_redirect_step(1)[OF g hs l]
      using updateForRedirect_invalid[OF t v] by simp
  qed
  show ?thesis
    by (intro conjI) (fact a, fact b, fact c, fact d, fact e, fact f, fact g, fact h, fact i, fact j)
qed

text \<open>C6, counterexample to the claim as stated: the path of
  \<^verbatim>\<open>http://foo-bar.nil/logo.png?v=2\<close> ends in \<^verbatim>\<open>.png\<close>, and the URL is accepted, because the
  pattern is matched against the whole string.\<close>

theorem url_with_media_path_accepted:
  "assertValidUrl sampleURL ''http://foo-bar.nil/logo.png?v=2'' = Inr PNG_QUERY_URL
   \<and> pathname PNG_QUERY_URL = ''/logo.png''
   \<and> endsWith (pathname PNG_QUERY_URL) ''.png''"
  by (simp add: url_defs string_defs char_defs PNG_QUERY_URL_def)

text \<open>C6, witness: the theorem at the test URL, at an \<^verbatim>\<open>ftp\<close> URL, at media file names,
  at a string the URL constructor rejects, and at redirects to \<^verbatim>\<open>/test2\<close> and to
  \<^verbatim>\<open>/clip.mp4\<close>.\<close>

theorem url_validation_witness:
  "assertValidUrl sampleURL ''http://foo-bar.nil/test1'' = Inr TEST1_URL
   \<and> assertValidUrl sampleURL ''ftp://foo-bar.nil/test1'' = Inl InvalidUrl
   \<and> assertValidUrl sampleURL (''http://foo-bar.nil/logo'' @ ''.PNG'') = Inl InvalidUrl
   \<and> assertValidUrl sampleURL (''http://foo-bar.nil/clip'' @ ''.mp'' @ ''4'') = Inl InvalidUrl
   \<and> sampleURL ''http://foo-bar.nil/unknown'' = None
   \<and> assertValidUrl sampleURL ''http://foo-bar.nil/unknown'' = Inl InvalidUrl
   \<and> newScraperOpts sampleURL ''http://foo-bar.nil/test1'' = Inr (fieldDefaults TEST1_URL)
   \<and> newScraperOpts sampleURL ''ftp://foo-bar.nil/test1'' = Inl InvalidUrl
   \<and> assertValidUrl sampleURL
        (redirectTarget ((fieldDefaults TEST1_URL)\<lparr> maxRedirects := ofInt 2 \<rparr>) ''/test2'')
       = Inr TEST2_URL
   \<and> updateForRedirect sampleURL ''/clip.mp4'' ((fieldDefaults TEST1_URL)\<lparr> maxRedirects := ofInt 2 \<rparr>)
       = Inl InvalidUrl
   \<and> outcome (requestHtml sampleURL 0
         ((fieldDefaults TEST1_URL)\<lparr> maxRedirects := ofInt 2, restrictRequestFrequency := False \<rparr>) []
         (Response (Some ''/clip.mp4'') None [] # []))
       = Rejected (ErrorText InvalidUrl)"
proof -
  let ?ok = "''http://foo-bar.nil/test1''"
  let ?ftp = "''ftp://foo-bar.nil/test1''"
  let ?o2 = "(fieldDefaults TEST1_URL)\<lparr> maxRedirects := ofInt 2 \<rparr>"
  let ?o3 = "(fieldDefaults TEST1_URL)\<lparr> maxRedirects := ofInt 2, restrictRequestFrequency := False \<rparr>"
  let ?o2' = "?o2\<lparr> url := TEST2_URL, totalRedirects := 1 \<rparr>"
  note T1 = url_validation[of sampleURL ?ok TEST1_URL InvalidUrl "''.PNG''" "CHR ''4''"
      "fieldDefaults TEST1_URL" "''/test2''" ?o2 ?o2']
  note T2 = url_validation[of sampleURL ?ftp TEST1_URL InvalidUrl "''.mp''" "CHR ''4''"
      "fieldDefaults TEST1_URL" "''/clip.mp4''" ?o2 ?o2']
  note T3 = url_validation[of sampleURL "''http://foo-bar.nil/logo''" _ _ "''.PNG''"]
  note T4 = url_validation[of sampleURL "''http://foo-bar.nil/clip''" _ _ "''.mp''" "CHR ''4''"]
  note T5 = url_validation[of sampleURL "''http://foo-bar.nil/unknown''"]
  note T6 = url_validation[of sampleURL _ _ InvalidUrl _ _ _ "''/clip.mp4''" ?o3 _ 0 "[]"
      "[(''User-Agent'', ''node.js'')]" "Some ''/clip.mp4''" None "[]" "[]"]
  have A: "(startsWith ?ok ''http://'' \<or> startsWith ?ok ''https://'')
      \<and> \<not> UNSUPPORTED_FILENAMES_REGEX_test ?ok \<and> sampleURL ?ok = Some TEST1_URL"
    by (simp add: url_defs string_defs char_defs)
  have a: "assertValidUrl sampleURL ?ok = Inr TEST1_URL"
    using T1[THEN conjunct1, THEN iffD2, OF A] .
  have B: "assertValidUrl sampleURL ?ftp = Inl InvalidUrl"
    by (simp add: url_defs string_defs)
  have b: "InvalidUrl = InvalidUrl"
    using T2[THEN conjunct2, THEN conjunct1, THEN mp, OF B] .
  have C: "map toLowerCase ''.PNG'' \<in> set [''.jpg'', ''.jpeg'', ''.png'', ''.gif'', ''.avi'']"
    by (simp add: char_defs)
  have c: "assertValidUrl sampleURL (''http://foo-bar.nil/logo'' @ ''.PNG'') = Inl InvalidUrl"
    using T3[THEN conjunct2, THEN conjunct2, THEN conjunct1, THEN mp, OF C] .
  have D: "map toLowerCase ''.mp'' \<in> set [''.gif'', ''.mp'', ''.web'']
      \<and> \<not> isLineTerminator CHR ''4''"
    by (simp add: char_defs)
  have d: "assertValidUrl sampleURL (''http://foo-bar.nil/clip'' @ ''.mp'' @ [CHR ''4''])
      = Inl InvalidUrl"
    using T4[THEN conjunct2, THEN conjunct2, THEN conjunct2, THEN conjunct1, THEN mp, OF D] .
  have E: "sampleURL ''http://foo-bar.nil/unknown'' = None"
    by (simp add: sampleURL_def)
  have e: "assertValidUrl sampleURL ''http://foo-bar.nil/unknown'' = Inl InvalidUrl"
    using T5[THEN conjunct2, THEN conjunct2, THEN conjunct2, THEN conjunct2, THEN conjunct1,
             THEN mp, OF E] .
  have F: "newScraperOpts sampleURL ?ok = Inr (fieldDefaults TEST1_URL)"
    using a by (simp add: newScraperOpts_def)
  have f: "assertValidUrl sampleURL ?ok = Inr (url (fieldDefaults TEST1_URL))"
    using T1[THEN conjunct2, THEN conjunct2, THEN conjunct2, THEN conjunct2, THEN conjunct2,
             THEN conjunct1, THEN mp, OF F] .
  have g: "newScraperOpts sampleURL ?ftp = Inl InvalidUrl"
    using T2[THEN conjunct2, THEN conjunct2, THEN conjunct2, THEN conjunct2, THEN conjunct2,
             THEN conjunct2, THEN conjunct1, THEN mp, OF B] .
  have H: "updateForRedirect sampleURL ''/test2'' ?o2 = Inr ?o2'"
    by (simp add: url_defs string_defs char_defs fieldDefaults_def TEST1_URL_def)
  have h: "assertValidUrl sampleURL (redirectTarget ?o2 ''/test2'') = Inr (url ?o2')"
    using T1[THEN conjunct2, THEN conjunct2, THEN conjunct2, THEN conjunct2, THEN conjunct2,
             THEN conjunct2, THEN conjunct2, THEN conjunct1, THEN mp, OF H] .
  have I: "\<not> numberGe (ofInt (int (totalRedirects ?o2))) (maxRedirects ?o2)
      \<and> assertValidUrl sampleURL (redirectTarget ?o2 ''/clip.mp4'') = Inl InvalidUrl"
    by (simp add: url_defs string_defs char_defs fieldDefaults_def TEST1_URL_def)
  have i: "updateForRedirect sampleURL ''/clip.mp4'' ?o2 = Inl InvalidUrl"
    using T2[THEN conjunct2, THEN conjunct2, THEN conjunct2, THEN conjunct2, THEN conjunct2,
             THEN conjunct2, THEN conjunct2, THEN conjunct2, THEN conjunct1, THEN mp, OF I] .
  have J: "fst (frequencyGate 0 ?o3 []) = Pending
      \<and> requestHeaders ?o3 = Inr [(''User-Agent'', ''node.js'')]
      \<and> truthy (Some ''/clip.mp4'') \<and> \<not> numberGe (ofInt (int (totalRedirects ?o3))) (maxRedirects ?o3)
      \<and> assertValidUrl sampleURL (redirectTarget ?o3 (orEmpty (Some ''/clip.mp4'')))
          = Inl InvalidUrl"
    by (simp add: request_defs url_defs string_defs char_defs fieldDefaults_def TEST1_URL_def)
  have j: "outcome (requestHtml sampleURL 0 ?o3 [] (Response (Some ''/clip.mp4'') None [] # []))
      = Rejected (ErrorText InvalidUrl)"
    using T6[THEN conjunct2, THEN conjunct2, THEN conjunct2, THEN conjunct2, THEN conjunct2,
             THEN conjunct2, THEN conjunct2, THEN conjunct2, THEN conjunct2, THEN mp, OF J] .
  have d': "assertValidUrl sampleURL (''http://foo-bar.nil/clip'' @ ''.mp'' @ ''4'') = Inl InvalidUrl"
    using d by simp
  have h': "assertValidUrl sampleURL (redirectTarget ?o2 ''/test2'') = Inr TEST2_URL"
    using h by simp
  show ?thesis
    by (intro conjI) (fact a, fact B, fact c, fact d', fact E, fact e, fact F, fact g, fact h',
        fact i, fact j)
qed

section \<open>Redirect chains\<close>

lemma processChunk_fields:
  assumes "startToken a = startToken b" and "stopToken a = stopToken b"
    and "isStartTokenIncluded a = isStartTokenIncluded b"
    and "isStopTokenIncluded a = isStopTokenIncluded b"
    and "chunkBufferSize a = chunkBufferSize b" and "maxBytes a = maxBytes b"
  shows "processChunk a = processChunk b"
proof -
  have t: "startTokenOf a = startTokenOf b" "stopTokenOf a = stopTokenOf b"
    using assms by (simp_all add: startTokenOf_def stopTokenOf_def)
  have l: "startTokenLength a = startTokenLength b" "stopTokenLength a = stopTokenLength b"
    using t by (simp_all add: startTokenLength_def stopTokenLength_def)
  have m: "maxHtmlSize a = maxHtmlSize b" "chunkBufferSizeOf a = chunkBufferSizeOf b"
    using assms l by (simp_all add: maxHtmlSize_def chunkBufferSizeOf_def)
  have s1: "searchStartToken a = searchStartToken b"
    unfolding searchStartToken_def t l assms(3) by (rule refl)
  have s2: "searchStopToken a = searchStopToken b"
    unfolding searchStopToken_def t l m assms(4) by (rule refl)
  have s3: "enforceMaxHtmlSize a = enforceMaxHtmlSize b"
    unfolding enforceMaxHtmlSize_def m by (rule refl)
  have "processChunkTokens a = processChunkTokens b"
    unfolding processChunkTokens_def s1 s2 s3 m by (rule refl)
  then show ?thesis
    unfolding processChunk_def t by (simp only:)
qed

lemma scanBody_fields:
  assumes "startToken a = startToken b" and "stopToken a = stopToken b"
    and "isStartTokenIncluded a = isStartTokenIncluded b"
    and "isStopTokenIncluded a = isStopTokenIncluded b"
    and "chunkBufferSize a = chunkBufferSize b" and "maxBytes a = maxBytes b"
  shows "scanBody a = scanBody b"
proof -
  have i: "initialScanner a = initialScanner b"
    using assms by (intro ext) (simp add: initialScanner_def startTokenOf_def maxHtmlSize_def)
  show ?thesis
    using processChunk_fields[OF assms] i
    by (intro ext) (simp add: scanBody_def feedChunks_def doResolve_def)
qed

lemma requestHeaders_fields:
  "userAgent a = userAgent b \<Longrightarrow> headers a = headers b \<Longrightarrow> requestHeaders a = requestHeaders b"
  by (simp add: requestHeaders_def)

lemma frequencyGate_redirect:
  "totalRedirects opts \<noteq> 0 \<Longrightarrow> frequencyGate now opts table = (Pending, table)"
  by (simp add: frequencyGate_def isRedirect_def)

lemma requestOptsOf_url:
  "requestOptsOf (opts\<lparr> totalRedirects := t, url := u \<rparr>) hs
     = requestOptsOf (opts\<lparr> url := u \<rparr>) hs"
  by (simp add: requestOptsOf_def)

lemma redirect_chain_followed:
  assumes "validRedirects newURL (url opts) (map fst reds)"
    and "requestHeaders opts = Inr hs"
    and "fst (frequencyGate now opts table) = Pending"
    and "maxRedirects opts = ofInt m"
    and "int (totalRedirects opts + length reds) \<le> m"
    and "\<not> truthy loc" and "CONTENT_TYPE_HTML_REGEX_test (orEmpty ct)"
  shows "outcome (requestHtml newURL now opts table
            (redirectResponses reds @ [Response loc ct chunks]))
         = Resolved (scanBody opts False chunks)
     \<and> exchanges (requestHtml newURL now opts table
            (redirectResponses reds @ [Response loc ct chunks]))
         = map (\<lambda>u. requestOptsOf (opts\<lparr> url := u \<rparr>) hs)
             (url opts # redirectUrls newURL (url opts) (map fst reds))
     \<and> optsAfter (requestHtml newURL now opts table
            (redirectResponses reds @ [Response loc ct chunks]))
         = opts\<lparr> url := last (url opts # redirectUrls newURL (url opts) (map fst reds)),
                 totalRedirects := totalRedirects opts + length reds \<rparr>
     \<and> length (redirectUrls newURL (url opts) (map fst reds)) = length reds"
  using assms
proof (induction reds arbitrary: opts table)
  case Nil
  have "opts\<lparr> url := url opts, totalRedirects := totalRedirects opts \<rparr> = opts" by simp
  then show ?case
    using requestHtml_page[of now opts table hs loc ct newURL chunks "[]"] Nil
    by (simp add: redirectResponses_def)
next
  case (Cons red reds)
  obtain l c b where red: "red = (l, c, b)" by (cases red)
  from Cons.prems(1) red obtain u1 where l: "l \<noteq> []"
    and v: "assertValidUrl newURL (redirectTarget opts l) = Inr u1"
    and rest: "validRedirects newURL u1 (map fst reds)"
    by (auto simp: redirectTarget_def split: sum.splits)
  let ?opts1 = "opts\<lparr> url := u1, totalRedirects := totalRedirects opts + 1 \<rparr>"
  let ?table1 = "snd (frequencyGate now opts table)"
  let ?rs = "redirectResponses reds @ [Response loc ct chunks]"
  have lt: "\<not> numberGe (ofInt (int (totalRedirects opts))) (maxRedirects opts)"
    using Cons.prems(4,5) by (simp add: numberGe_ofInt)
  have upd: "updateForRedirect newURL (orEmpty (Some l)) opts = Inr ?opts1"
    using updateForRedirect_valid[OF lt v] by (simp add: orEmpty_def)
  have tr: "truthy (Some l)" using l by (simp add: truthy_def)
  note step = requestHtml_redirect_step[OF Cons.prems(3) Cons.prems(2) tr, of newURL c b ?rs]
  have s1: "outcome (requestHtml newURL now opts table (Response (Some l) c b # ?rs))
      = outcome (requestHtml newURL now ?opts1 ?table1 ?rs)"
    unfolding step(1) upd by simp
  have s2: "exchanges (requestHtml newURL now opts table (Response (Some l) c b # ?rs))
      = requestOptsOf opts hs # exchanges (requestHtml newURL now ?opts1 ?table1 ?rs)"
    unfolding step(2) upd by simp
  have s3: "optsAfter (requestHtml newURL now opts table (Response (Some l) c b # ?rs))
      = optsAfter (requestHtml newURL now ?opts1 ?table1 ?rs)"
    unfolding step(3) upd by simp
  have nz: "totalRedirects ?opts1 \<noteq> 0" by simp
  have ih: "outcome (requestHtml newURL now ?opts1 ?table1 ?rs)
         = Resolved (scanBody ?opts1 False chunks)
     \<and> exchanges (requestHtml newURL now ?opts1 ?table1 ?rs)
         = map (\<lambda>u. requestOptsOf (?opts1\<lparr> url := u \<rparr>) hs)
             (url ?opts1 # redirectUrls newURL (url ?opts1) (map fst reds))
     \<and> optsAfter (requestHtml newURL now ?opts1 ?table1 ?rs)
         = ?opts1\<lparr> url := last (url ?opts1 # redirectUrls newURL (url ?opts1) (map fst reds)),
                   totalRedirects := totalRedirects ?opts1 + length reds \<rparr>
     \<and> length (redirectUrls newURL (url ?opts1) (map fst reds)) = length reds"
  proof (rule Cons.IH)
    show "validRedirects newURL (url ?opts1) (map fst reds)" using rest by simp
    show "requestHeaders ?opts1 = Inr hs"
      using Cons.prems(2) requestHeaders_fields[of ?opts1 opts] by simp
    show "fst (frequencyGate now ?opts1 ?table1) = Pending"
      using frequencyGate_redirect[OF nz] by simp
    show "maxRedirects ?opts1 = ofInt m" using Cons.prems(4) by simp
    show "int (totalRedirects ?opts1 + length reds) \<le> m" using Cons.prems(5) by simp
    show "\<not> truthy loc" by (rule Cons.prems(6))
    show "CONTENT_TYPE_HTML_REGEX_test (orEmpty ct)" by (rule Cons.prems(7))
  qed
  have sb: "scanBody ?opts1 = scanBody opts"
    by (intro scanBody_fields) simp_all
  have urls: "redirectUrls newURL (url opts) (map fst (red # reds))
      = u1 # redirectUrls newURL u1 (map fst reds)"
    using v red by (simp add: redirectTarget_def)
  have e: "redirectResponses (red # reds) @ [Response loc ct chunks]
      = Response (Some l) c b # ?rs"
    using red by (simp add: redirectResponses_def)
  have a: "outcome (requestHtml newURL now opts table
            (redirectResponses (red # reds) @ [Response loc ct chunks]))
         = Resolved (scanBody opts False chunks)"
    unfolding e s1 using ih sb by (simp del: requestHtml.simps)
  have "exchanges (requestHtml newURL now opts table (Response (Some l) c b # ?rs))
      = requestOptsOf opts hs
        # map (\<lambda>u. requestOptsOf (?opts1\<lparr> url := u \<rparr>) hs)
            (u1 # redirectUrls newURL u1 (map fst reds))"
    unfolding s2 using ih by (simp del: requestHtml.simps)
  then have b: "exchanges (requestHtml newURL now opts table
            (redirectResponses (red # reds) @ [Response loc ct chunks]))
         = map (\<lambda>u. requestOptsOf (opts\<lparr> url := u \<rparr>) hs)
             (url opts # redirectUrls newURL (url opts) (map fst (red # reds)))"
    unfolding e urls by (simp add: requestOptsOf_url del: requestHtml.simps)
  have "optsAfter (requestHtml newURL now opts table (Response (Some l) c b # ?rs))
      = ?opts1\<lparr> url := last (u1 # redirectUrls newURL u1 (map fst reds)),
                totalRedirects := totalRedirects ?opts1 + length reds \<rparr>"
    unfolding s3 using ih by (simp del: requestHtml.simps)
  then have c: "optsAfter (requestHtml newURL now opts table
            (redirectResponses (red # reds) @ [Response loc ct chunks]))
         = opts\<lparr> url := last (url opts # redirectUrls newURL (url opts) (map fst (red # reds))),
                 totalRedirects := totalRedirects opts + length (red # reds) \<rparr>"
    unfolding e urls by (cases opts) (simp del: requestHtml.simps)
  have d: "length (redirectUrls newURL (url opts) (map fst (red # reds))) = length (red # reds)"
    unfolding urls using ih by simp
  show ?case by (intro conjI) (fact a, fact b, fact c, fact d)
qed

lemma redirect_chain_exceeded:
  assumes "validRedirects newURL (url opts) (map fst (red # reds))"
    and "requestHeaders opts = Inr hs"
    and "fst (frequencyGate now opts table) = Pending"
    and "maxRedirects opts = ofInt m"
    and "int (totalRedirects opts + length reds) = m"
  shows "outcome (requestHtml newURL now opts table (redirectResponses (red # reds) @ rest))
         = Rejected (ErrorText (RedirectLimitExceeded (ofInt m)))
     \<and> exchanges (requestHtml newURL now opts table (redirectResponses (red # reds) @ rest))
         = map (\<lambda>u. requestOptsOf (opts\<lparr> url := u \<rparr>) hs)
             (url opts # redirectUrls newURL (url opts) (map fst (butlast (red # reds))))"
  using assms
proof (induction reds arbitrary: red opts table)
  case Nil
  obtain l c b where red: "red = (l, c, b)" by (cases red)
  have tr: "truthy (Some l)" using Nil.prems(1) red by (simp add: truthy_def)
  have "numberGe (ofInt (int (totalRedirects opts))) (maxRedirects opts)"
    using Nil.prems(4,5) by (simp add: numberGe_ofInt)
  then have "updateForRedirect newURL (orEmpty (Some l)) opts
      = Inl (RedirectLimitExceeded (ofInt m))"
    using updateForRedirect_exhausted[of opts newURL "orEmpty (Some l)"] Nil.prems(4) by simp
  then show ?case
    using requestHtml_redirect_step(1,2)[OF Nil.prems(3) Nil.prems(2) tr, of newURL c b rest] red
    by (simp add: redirectResponses_def)
next
  case (Cons red' reds)
  obtain l c b where red: "red = (l, c, b)" by (cases red)
  from Cons.prems(1) red obtain u1 where l: "l \<noteq> []"
    and v: "assertValidUrl newURL (redirectTarget opts l) = Inr u1"
    and more: "validRedirects newURL u1 (map fst (red' # reds))"
    by (auto simp: redirectTarget_def split: sum.splits)
  let ?opts1 = "opts\<lparr> url := u1, totalRedirects := totalRedirects opts + 1 \<rparr>"
  let ?table1 = "snd (frequencyGate now opts table)"
  let ?rs = "redirectResponses (red' # reds) @ rest"
  have lt: "\<not> numberGe (ofInt (int (totalRedirects opts))) (maxRedirects opts)"
    using Cons.prems(4,5) by (simp add: numberGe_ofInt)
  have upd: "updateForRedirect newURL (orEmpty (Some l)) opts = Inr ?opts1"
    using updateForRedirect_valid[OF lt v] by (simp add: orEmpty_def)
  have tr: "truthy (Some l)" using l by (simp add: truthy_def)
  note step = requestHtml_redirect_step[OF Cons.prems(3) Cons.prems(2) tr, of newURL c b ?rs]
  have s1: "outcome (requestHtml newURL now opts table (Response (Some l) c b # ?rs))
      = outcome (requestHtml newURL now ?opts1 ?table1 ?rs)"
    unfolding step(1) upd by simp
  have s2: "exchanges (requestHtml newURL now opts table (Response (Some l) c b # ?rs))
      = requestOptsOf opts hs # exchanges (requestHtml newURL now ?opts1 ?table1 ?rs)"
    unfolding step(2) upd by simp
  have nz: "totalRedirects ?opts1 \<noteq> 0" by simp
  have ih: "outcome (requestHtml newURL now ?opts1 ?table1 ?rs)
         = Rejected (ErrorText (RedirectLimitExceeded (ofInt m)))
     \<and> exchanges (requestHtml newURL now ?opts1 ?table1 ?rs)
         = map (\<lambda>u. requestOptsOf (?opts1\<lparr> url := u \<rparr>) hs)
             (url ?opts1 # redirectUrls newURL (url ?opts1) (map fst (butlast (red' # reds))))"
  proof (rule Cons.IH)
    show "validRedirects newURL (url ?opts1) (map fst (red' # reds))" using more by simp
    show "requestHeaders ?opts1 = Inr hs"
      using Cons.prems(2) requestHeaders_fields[of ?opts1 opts] by simp
    show "fst (frequencyGate now ?opts1 ?table1) = Pending"
      using frequencyGate_redirect[OF nz] by simp
    show "maxRedirects ?opts1 = ofInt m" using Cons.prems(4) by simp
    show "int (totalRedirects ?opts1 + length reds) = m" using Cons.prems(5) by simp
  qed
  have urls: "redirectUrls newURL (url opts) (map fst (butlast (red # red' # reds)))
      = u1 # redirectUrls newURL u1 (map fst (butlast (red' # reds)))"
    using v red by (simp add: redirectTarget_def)
  have a: "outcome (requestHtml newURL now opts table
            (redirectResponses (red # red' # reds) @ rest))
         = Rejected (ErrorText (RedirectLimitExceeded (ofInt m)))"
    using s1 ih red by (simp add: redirectResponses_def del: requestHtml.simps)
  have e: "redirectResponses (red # red' # reds) @ rest = Response (Some l) c b # ?rs"
    using red by (simp add: redirectResponses_def)
  have "exchanges (requestHtml newURL now opts table (Response (Some l) c b # ?rs))
      = requestOptsOf opts hs
        # map (\<lambda>u. requestOptsOf (?opts1\<lparr> url := u \<rparr>) hs)
            (u1 # redirectUrls newURL u1 (map fst (butlast (red' # reds))))"
    unfolding s2 using ih by (simp del: requestHtml.simps butlast.simps)
  then have b: "exchanges (requestHtml newURL now opts table
            (redirectResponses (red # red' # reds) @ rest))
         = map (\<lambda>u. requestOptsOf (opts\<lparr> url := u \<rparr>) hs)
             (url opts # redirectUrls newURL (url opts) (map fst (butlast (red # red' # reds))))"
    unfolding e urls by (simp add: requestOptsOf_url del: requestHtml.simps butlast.simps)
  show ?case by (intro conjI) (fact a, fact b)
qed


section \<open>Claim C8: a chain of redirects against the redirect budget\<close>

text \<open>
  C8, amended. The configuration has followed \<open>k\<close> redirects so far (\<open>k = 0\<close> unless it was
  used for an earlier fetch), the call passes the frequency gate and its header block parses.
  The server answers with \<open>N \<ge> 1\<close> redirects whose locations pass the URL validation, then
  with an HTML page. With \<^verbatim>\<open>maxRedirects = k + N\<close> the exchanges go to the original URL and
  then to each redirect target in turn, the promise is resolved with the scan of the chunks
  of the last answer, and the configuration is left at the last target with \<open>k + N\<close>
  redirects counted. With \<^verbatim>\<open>maxRedirects = k + N - 1\<close> the promise is rejected with
  \<^verbatim>\<open>Redirect limit exceeded (k + N - 1)\<close> once the last redirect arrives; nothing is resolved,
  and no exchange goes to the last target.
\<close>

theorem redirect_chain_budget:
  assumes "fst (frequencyGate now opts table) = Pending"
    and "requestHeaders opts = Inr hs"
    and "reds \<noteq> []"
    and "validRedirects newURL (url opts) (map fst reds)"
    and "\<not> truthy loc" and "CONTENT_TYPE_HTML_REGEX_test (orEmpty ct)"
  shows "outcome (requestHtml newURL now
            (opts\<lparr> maxRedirects := ofInt (int (totalRedirects opts + length reds)) \<rparr>) table
            (redirectResponses reds @ [Response loc ct chunks]))
           = Resolved (scanBody opts False chunks)
     \<and> exchanges (requestHtml newURL now
            (opts\<lparr> maxRedirects := ofInt (int (totalRedirects opts + length reds)) \<rparr>) table
            (redirectResponses reds @ [Response loc ct chunks]))
           = map (\<lambda>u. requestOptsOf (opts\<lparr> url := u \<rparr>) hs)
               (url opts # redirectUrls newURL (url opts) (map fst reds))
     \<and> length (redirectUrls newURL (url opts) (map fst reds)) = length reds
     \<and> url (optsAfter (requestHtml newURL now
            (opts\<lparr> maxRedirects := ofInt (int (totalRedirects opts + length reds)) \<rparr>) table
            (redirectResponses reds @ [Response loc ct chunks])))
           = last (redirectUrls newURL (url opts) (map fst reds))
     \<and> totalRedirects (optsAfter (requestHtml newURL now
            (opts\<lparr> maxRedirects := ofInt (int (totalRedirects opts + length reds)) \<rparr>) table
            (redirectResponses reds @ [Response loc ct chunks])))
           = totalRedirects opts + length reds
     \<and> outcome (requestHtml newURL now
            (opts\<lparr> maxRedirects := ofInt (int (totalRedirects opts + length reds) - 1) \<rparr>) table
            (redirectResponses reds @ [Response loc ct chunks]))
           = Rejected (ErrorText (RedirectLimitExceeded
               (ofInt (int (totalRedirects opts + length reds) - 1))))
     \<and> exchanges (requestHtml newURL now
            (opts\<lparr> maxRedirects := ofInt (int (totalRedirects opts + length reds) - 1) \<rparr>) table
            (redirectResponses reds @ [Response loc ct chunks]))
           = map (\<lambda>u. requestOptsOf (opts\<lparr> url := u \<rparr>) hs)
               (url opts # redirectUrls newURL (url opts) (map fst (butlast reds)))"
proof -
  let ?n = "int (totalRedirects opts + length reds)"
  let ?hi = "opts\<lparr> maxRedirects := ofInt ?n \<rparr>"
  let ?lo = "opts\<lparr> maxRedirects := ofInt (?n - 1) \<rparr>"
  let ?rs = "redirectResponses reds @ [Response loc ct chunks]"
  let ?urls = "redirectUrls newURL (url opts) (map fst reds)"
  have gate: "frequencyGate now (opts\<lparr> maxRedirects := m \<rparr>) table = frequencyGate now opts table"
    for m by (simp add: frequencyGate_def isRedirect_def)
  have hdrs: "requestHeaders (opts\<lparr> maxRedirects := m \<rparr>) = Inr hs" for m
    using assms(2) requestHeaders_fields[of "opts\<lparr> maxRedirects := m \<rparr>" opts] by simp
  have ro: "requestOptsOf (opts\<lparr> maxRedirects := m, url := u \<rparr>) hs
      = requestOptsOf (opts\<lparr> url := u \<rparr>) hs" for m u
    by (simp add: requestOptsOf_def)
  have hi: "outcome (requestHtml newURL now ?hi table ?rs) = Resolved (scanBody ?hi False chunks)
     \<and> exchanges (requestHtml newURL now ?hi table ?rs)
         = map (\<lambda>u. requestOptsOf (?hi\<lparr> url := u \<rparr>) hs)
             (url ?hi # redirectUrls newURL (url ?hi) (map fst reds))
     \<and> optsAfter (requestHtml newURL now ?hi table ?rs)
         = ?hi\<lparr> url := last (url ?hi # redirectUrls newURL (url ?hi) (map fst reds)),
                 totalRedirects := totalRedirects ?hi + length reds \<rparr>
     \<and> length (redirectUrls newURL (url ?hi) (map fst reds)) = length reds"
    using assms by (intro redirect_chain_followed[where m = ?n]) (simp_all add: gate hdrs)
  have sb: "scanBody ?hi = scanBody opts"
    by (intro scanBody_fields) simp_all
  have len: "length ?urls = length reds" using hi by simp
  then have ne: "?urls \<noteq> []" using assms(3) by auto
  have a: "outcome (requestHtml newURL now ?hi table ?rs) = Resolved (scanBody opts False chunks)"
    using hi sb by simp
  have b: "exchanges (requestHtml newURL now ?hi table ?rs)
      = map (\<lambda>u. requestOptsOf (opts\<lparr> url := u \<rparr>) hs) (url opts # ?urls)"
    using hi by (simp add: ro)
  have c: "url (optsAfter (requestHtml newURL now ?hi table ?rs)) = last ?urls"
    using hi ne by simp
  have d: "totalRedirects (optsAfter (requestHtml newURL now ?hi table ?rs))
      = totalRedirects opts + length reds"
    using hi by simp
  obtain red reds' where split: "reds = red # reds'"
    using assms(3) by (cases reds) auto
  have lo: "outcome (requestHtml newURL now ?lo table (redirectResponses (red # reds') @ [Response loc ct chunks]))
         = Rejected (ErrorText (RedirectLimitExceeded (ofInt (?n - 1))))
     \<and> exchanges (requestHtml newURL now ?lo table (redirectResponses (red # reds') @ [Response loc ct chunks]))
         = map (\<lambda>u. requestOptsOf (?lo\<lparr> url := u \<rparr>) hs)
             (url ?lo # redirectUrls newURL (url ?lo) (map fst (butlast (red # reds'))))"
    using assms split
    by (intro redirect_chain_exceeded[where m = "?n - 1"]) (simp_all add: gate hdrs)
  have e: "outcome (requestHtml newURL now ?lo table ?rs)
      = Rejected (ErrorText (RedirectLimitExceeded (ofInt (?n - 1))))"
    using lo split by (simp del: requestHtml.simps)
  have f: "exchanges (requestHtml newURL now ?lo table ?rs)
      = map (\<lambda>u. requestOptsOf (opts\<lparr> url := u \<rparr>) hs)
          (url opts # redirectUrls newURL (url opts) (map fst (butlast reds)))"
    using lo split by (simp add: ro del: requestHtml.simps butlast.simps)
  show ?thesis by (intro conjI) (fact a, fact b, fact len, fact c, fact d, fact e, fact f)
qed

text \<open>C8, witness: a fresh configuration, two redirects (to \<^verbatim>\<open>/test2\<close> and back to
  \<^verbatim>\<open>/test1\<close>), then a page scanned up to the stop token \<^verbatim>\<open></b>\<close>. With a budget of 2 the three
  exchanges go to \<^verbatim>\<open>/test1\<close>, \<^verbatim>\<open>/test2\<close>, \<^verbatim>\<open>/test1\<close>; with a budget of 1 there are two.\<close>

theorem redirect_chain_budget_witness:
  "outcome (requestHtml sampleURL 1000
      ((fieldDefaults TEST1_URL)\<lparr> stopToken := Some ''</b>'', chunkBufferSize := 0,
                                  maxRedirects := ofInt 2 \<rparr>)
      []
      (redirectResponses [(''/test2'', None, []), (''http://foo-bar.nil/test1'', Some ''text/plain'', [''moved''])]
         @ [Response None (Some ''text/html; charset=utf-8'') [''<b>bo'', ''ld</b> text'']]))
     = Resolved ''<b>bold''
   \<and> map reqPath (exchanges (requestHtml sampleURL 1000
      ((fieldDefaults TEST1_URL)\<lparr> stopToken := Some ''</b>'', chunkBufferSize := 0,
                                  maxRedirects := ofInt 2 \<rparr>)
      []
      (redirectResponses [(''/test2'', None, []), (''http://foo-bar.nil/test1'', Some ''text/plain'', [''moved''])]
         @ [Response None (Some ''text/html; charset=utf-8'') [''<b>bo'', ''ld</b> text'']])))
     = [''/test1'', ''/test2'', ''/test1'']
   \<and> outcome (requestHtml sampleURL 1000
      ((fieldDefaults TEST1_URL)\<lparr> stopToken := Some ''</b>'', chunkBufferSize := 0,
                                  maxRedirects := ofInt 1 \<rparr>)
      []
      (redirectResponses [(''/test2'', None, []), (''http://foo-bar.nil/test1'', Some ''text/plain'', [''moved''])]
         @ [Response None (Some ''text/html; charset=utf-8'') [''<b>bo'', ''ld</b> text'']]))
     = Rejected (ErrorText (RedirectLimitExceeded (ofInt 1)))
   \<and> map reqPath (exchanges (requestHtml sampleURL 1000
      ((fieldDefaults TEST1_URL)\<lparr> stopToken := Some ''</b>'', chunkBufferSize := 0,
                                  maxRedirects := ofInt 1 \<rparr>)
      []
      (redirectResponses [(''/test2'', None, []), (''http://foo-bar.nil/test1'', Some ''text/plain'', [''moved''])]
         @ [Response None (Some ''text/html; charset=utf-8'') [''<b>bo'', ''ld</b> text'']])))
     = [''/test1'', ''/test2'']"
proof -
  let ?opts = "(fieldDefaults TEST1_URL)\<lparr> stopToken := Some ''</b>'', chunkBufferSize := 0 \<rparr>"
  let ?reds = "[(''/test2'', None :: string option, [] :: string list),
                (''http://foo-bar.nil/test1'', Some ''text/plain'', [''moved''])]"
  let ?page = "Response None (Some ''text/html; charset=utf-8'') [''<b>bo'', ''ld</b> text'']"
  let ?hs = "[(''User-Agent'', ''node.js'')]"
  have h1: "fst (frequencyGate 1000 ?opts []) = Pending"
    by (simp add: request_defs fieldDefaults_def TEST1_URL_def)
  have h2: "requestHeaders ?opts = Inr ?hs"
    by (simp add: request_defs string_defs fieldDefaults_def)
  have h3: "?reds \<noteq> []" by simp
  have h4: "validRedirects sampleURL (url ?opts) (map fst ?reds)"
    by (simp add: url_defs string_defs char_defs fieldDefaults_def TEST1_URL_def TEST2_URL_def)
  have h5: "\<not> truthy None" by (simp add: truthy_def)
  have h6: "CONTENT_TYPE_HTML_REGEX_test (orEmpty (Some ''text/html; charset=utf-8''))"
    by (simp add: CONTENT_TYPE_HTML_REGEX_test_def orEmpty_def char_defs)
  have s: "scanBody ?opts False [''<b>bo'', ''ld</b> text''] = ''<b>bold''"
    by (simp add: scan_defs string_defs)
  have u: "redirectUrls sampleURL (url ?opts) (map fst ?reds) = [TEST2_URL, TEST1_URL]"
    by (simp add: url_defs string_defs char_defs fieldDefaults_def TEST1_URL_def TEST2_URL_def)
  have u1: "redirectUrls sampleURL (url ?opts) (map fst (butlast ?reds)) = [TEST2_URL]"
    by (simp add: url_defs string_defs char_defs fieldDefaults_def TEST1_URL_def TEST2_URL_def)
  have k: "totalRedirects ?opts + length ?reds = 2" by (simp add: fieldDefaults_def)
  have hi: "?opts\<lparr> maxRedirects := ofInt (int (totalRedirects ?opts + length ?reds)) \<rparr>
      = (fieldDefaults TEST1_URL)\<lparr> stopToken := Some ''</b>'', chunkBufferSize := 0,
                                    maxRedirects := ofInt 2 \<rparr>"
    unfolding k by simp
  have lo: "?opts\<lparr> maxRedirects := ofInt (int (totalRedirects ?opts + length ?reds) - 1) \<rparr>
      = (fieldDefaults TEST1_URL)\<lparr> stopToken := Some ''</b>'', chunkBufferSize := 0,
                                    maxRedirects := ofInt 1 \<rparr>"
    unfolding k by simp
  have lim: "ofInt (int (totalRedirects ?opts + length ?reds) - 1) = ofInt 1"
    unfolding k by simp
  have p: "map reqPath (map (\<lambda>u. requestOptsOf (?opts\<lparr> url := u \<rparr>) ?hs)
              [url ?opts, TEST2_URL, TEST1_URL]) = [''/test1'', ''/test2'', ''/test1'']"
    "map reqPath (map (\<lambda>u. requestOptsOf (?opts\<lparr> url := u \<rparr>) ?hs)
              [url ?opts, TEST2_URL]) = [''/test1'', ''/test2'']"
    by (simp_all add: requestOptsOf_def fieldDefaults_def TEST1_URL_def TEST2_URL_def)
  note T = redirect_chain_budget[OF h1 h2 h3 h4 h5 h6, of "[''<b>bo'', ''ld</b> text'']",
      unfolded hi lo lim u u1 s]
  have a: "outcome (requestHtml sampleURL 1000
      ((fieldDefaults TEST1_URL)\<lparr> stopToken := Some ''</b>'', chunkBufferSize := 0,
                                  maxRedirects := ofInt 2 \<rparr>) [] (redirectResponses ?reds @ [?page]))
     = Resolved ''<b>bold''"
    using T by (rule conjunct1)
  have b: "map reqPath (exchanges (requestHtml sampleURL 1000
      ((fieldDefaults TEST1_URL)\<lparr> stopToken := Some ''</b>'', chunkBufferSize := 0,
                                  maxRedirects := ofInt 2 \<rparr>) [] (redirectResponses ?reds @ [?page])))
     = [''/test1'', ''/test2'', ''/test1'']"
    unfolding T[THEN conjunct2, THEN conjunct1] by (rule p(1))
  have c: "outcome (requestHtml sampleURL 1000
      ((fieldDefaults TEST1_URL)\<lparr> stopToken := Some ''</b>'', chunkBufferSize := 0,
                                  maxRedirects := ofInt 1 \<rparr>) [] (redirectResponses ?reds @ [?page]))
     = Rejected (ErrorText (RedirectLimitExceeded (ofInt 1)))"
    using T[THEN conjunct2, THEN conjunct2, THEN conjunct2, THEN conjunct2, THEN conjunct2]
    by (rule conjunct1)
  have d: "map reqPath (exchanges (requestHtml sampleURL 1000
      ((fieldDefaults TEST1_URL)\<lparr> stopToken := Some ''</b>'', chunkBufferSize := 0,
                                  maxRedirects := ofInt 1 \<rparr>) [] (redirectResponses ?reds @ [?page])))
     = [''/test1'', ''/test2'']"
    unfolding T[THEN conjunct2, THEN conjunct2, THEN conjunct2, THEN conjunct2, THEN conjunct2,
                THEN conjunct2]
    by (rule p(2))
  show ?thesis by (intro conjI) (fact a, fact b, fact c, fact d)
qed

text \<open>C8, counterexample to the claim as stated. A first fetch follows one redirect with
  \<^verbatim>\<open>maxRedirects = 1\<close> and succeeds; it leaves the configuration with one redirect counted.
  A second fetch with the same configuration meets a chain of one redirect, still with
  \<^verbatim>\<open>maxRedirects = 1\<close>, and is rejected.\<close>

theorem reused_configuration_exceeds_budget:
  "outcome (requestHtml sampleURL 1000 ((fieldDefaults TEST1_URL)\<lparr> maxRedirects := ofInt 1 \<rparr>) []
      [Response (Some ''/test2'') None [], Response None (Some ''text/html'') [''<p>one</p>'']])
     = Resolved ''<p>one</p>''
   \<and> totalRedirects (optsAfter (requestHtml sampleURL 1000
        ((fieldDefaults TEST1_URL)\<lparr> maxRedirects := ofInt 1 \<rparr>) []
        [Response (Some ''/test2'') None [], Response None (Some ''text/html'') [''<p>one</p>'']]))
     = 1
   \<and> maxRedirects (optsAfter (requestHtml sampleURL 1000
        ((fieldDefaults TEST1_URL)\<lparr> maxRedirects := ofInt 1 \<rparr>) []
        [Response (Some ''/test2'') None [], Response None (Some ''text/html'') [''<p>one</p>'']]))
     = ofInt 1
   \<and> outcome (requestHtml sampleURL 9000
        (optsAfter (requestHtml sampleURL 1000
           ((fieldDefaults TEST1_URL)\<lparr> maxRedirects := ofInt 1 \<rparr>) []
           [Response (Some ''/test2'') None [], Response None (Some ''text/html'') [''<p>one</p>'']]))
        (tableAfter (requestHtml sampleURL 1000
           ((fieldDefaults TEST1_URL)\<lparr> maxRedirects := ofInt 1 \<rparr>) []
           [Response (Some ''/test2'') None [], Response None (Some ''text/html'') [''<p>one</p>'']]))
        [Response (Some ''/test1'') None [], Response None (Some ''text/html'') [''<p>two</p>'']])
     = Rejected (ErrorText (RedirectLimitExceeded (ofInt 1)))"
  by (simp add: request_defs url_defs string_defs char_defs scan_defs TEST1_URL_def TEST2_URL_def)

section \<open>Claim C10: the redirect budget of a fresh configuration\<close>

text \<open>
  C10, amended. The constructor leaves \<^verbatim>\<open>maxRedirects\<close> and the redirect counter at 0.
  \<^verbatim>\<open>withMaxRedirects\<close> accepts exactly the numbers strictly between 0 and 5, whole or not,
  and \<^verbatim>\<open>NaN\<close>; among the whole numbers these are 1 to 4. While \<^verbatim>\<open>maxRedirects\<close> is 0,
  \<^verbatim>\<open>updateForRedirect\<close> throws \<^verbatim>\<open>Redirect limit exceeded (0)\<close>, so a call that passed the
  frequency gate and whose first response is a redirect is rejected with that error, after a
  single exchange.
\<close>

theorem fresh_configuration_follows_no_redirect:
  "(newScraperOpts newURL s = Inr fresh
      \<longrightarrow> maxRedirects fresh = ofInt 0 \<and> totalRedirects fresh = 0)
   \<and> ((\<exists>opts1. withMaxRedirects v opts = Inr opts1)
        \<longleftrightarrow> v = JSNumber NaN \<or> (\<exists>x. v = JSNumber (Finite x) \<and> 0 < x \<and> x < 5))
   \<and> ((\<exists>opts1. withMaxRedirects (JSNumber (ofInt n)) opts = Inr opts1) \<longleftrightarrow> 1 \<le> n \<and> n \<le> 4)
   \<and> (withMaxRedirects v opts = Inr opts1 \<longrightarrow> (\<exists>m. v = JSNumber m \<and> opts1 = opts\<lparr> maxRedirects := m \<rparr>))
   \<and> (maxRedirects opts = ofInt 0 \<and> totalRedirects opts = 0
        \<longrightarrow> updateForRedirect newURL r opts = Inl (RedirectLimitExceeded (ofInt 0)))
   \<and> (maxRedirects opts = ofInt 0 \<and> totalRedirects opts = 0
        \<and> fst (frequencyGate now opts table) = Pending \<and> requestHeaders opts = Inr hs
        \<and> truthy loc
      \<longrightarrow> outcome (requestHtml newURL now opts table (Response loc ct body # rs))
            = Rejected (ErrorText (RedirectLimitExceeded (ofInt 0)))
          \<and> exchanges (requestHtml newURL now opts table (Response loc ct body # rs))
            = [requestOptsOf opts hs])"
proof -
  have a: "newScraperOpts newURL s = Inr fresh
      \<longrightarrow> maxRedirects fresh = ofInt 0 \<and> totalRedirects fresh = 0"
    by (auto simp: newScraperOpts_def fieldDefaults_def split: sum.splits)
  have b: "(\<exists>opts1. withMaxRedirects v opts = Inr opts1)
        \<longleftrightarrow> v = JSNumber NaN \<or> (\<exists>x. v = JSNumber (Finite x) \<and> 0 < x \<and> x < 5)"
  proof (cases v)
    case JSNotNumber
    then show ?thesis by (simp add: withMaxRedirects_def)
  next
    case (JSNumber m)
    then show ?thesis
      by (cases m) (auto simp: withMaxRedirects_def numberGe_def ofInt_def)
  qed
  have b': "(\<exists>opts1. withMaxRedirects (JSNumber (ofInt n)) opts = Inr opts1) \<longleftrightarrow> 1 \<le> n \<and> n \<le> 4"
    by (auto simp: withMaxRedirects_def numberGe_def ofInt_def)
  have b'': "withMaxRedirects v opts = Inr opts1
      \<longrightarrow> (\<exists>m. v = JSNumber m \<and> opts1 = opts\<lparr> maxRedirects := m \<rparr>)"
    by (cases v) (auto simp: withMaxRedirects_def split: if_splits)
  have ex: "numberGe (ofInt (int (totalRedirects opts))) (maxRedirects opts)"
    if "maxRedirects opts = ofInt 0" "totalRedirects opts = 0"
    using that by (simp add: numberGe_ofInt)
  have c: "maxRedirects opts = ofInt 0 \<and> totalRedirects opts = 0
        \<longrightarrow> updateForRedirect newURL r opts = Inl (RedirectLimitExceeded (ofInt 0))"
    using updateForRedirect_exhausted[of opts newURL r] ex by auto
  have d: "maxRedirects opts = ofInt 0 \<and> totalRedirects opts = 0
        \<and> fst (frequencyGate now opts table) = Pending \<and> requestHeaders opts = Inr hs
        \<and> truthy loc
      \<longrightarrow> outcome (requestHtml newURL now opts table (Response loc ct body # rs))
            = Rejected (ErrorText (RedirectLimitExceeded (ofInt 0)))
          \<and> exchanges (requestHtml newURL now opts table (Response loc ct body # rs))
            = [requestOptsOf opts hs]"
  proof (intro impI, elim conjE)
    assume m: "maxRedirects opts = ofInt 0" and t: "totalRedirects opts = 0"
      and g: "fst (frequencyGate now opts table) = Pending"
      and h: "requestHeaders opts = Inr hs" and l: "truthy loc"
    have "updateForRedirect newURL (orEmpty loc) opts = Inl (RedirectLimitExceeded (ofInt 0))"
      using updateForRedirect_exhausted[of opts newURL "orEmpty loc"] ex[OF m t] m by simp
    then show "outcome (requestHtml newURL now opts table (Response loc ct body # rs))
            = Rejected (ErrorText (RedirectLimitExceeded (ofInt 0)))
          \<and> exchanges (requestHtml newURL now opts table (Response loc ct body # rs))
            = [requestOptsOf opts hs]"
      using requestHtml_redirect_step(1,2)[OF g h l, of newURL ct body rs] by simp
  qed
  show ?thesis by (intro conjI) (fact a, fact b, fact b', fact b'', fact c, fact d)
qed

text \<open>C10, witness: the configuration the constructor builds for the test URL, the setter
  at 3, and a first response that redirects to \<^verbatim>\<open>/test2\<close>.\<close>

theorem fresh_configuration_follows_no_redirect_witness:
  "newScraperOpts sampleURL ''http://foo-bar.nil/test1'' = Inr (fieldDefaults TEST1_URL)
   \<and> maxRedirects (fieldDefaults TEST1_URL) = ofInt 0
   \<and> totalRedirects (fieldDefaults TEST1_URL) = 0
   \<and> withMaxRedirects (JSNumber (ofInt 3)) (fieldDefaults TEST1_URL)
       = Inr ((fieldDefaults TEST1_URL)\<lparr> maxRedirects := ofInt 3 \<rparr>)
   \<and> updateForRedirect sampleURL ''/test2'' (fieldDefaults TEST1_URL)
       = Inl (RedirectLimitExceeded (ofInt 0))
   \<and> outcome (requestHtml sampleURL 1000 (fieldDefaults TEST1_URL) []
        (Response (Some ''/test2'') None [] # [Response None (Some ''text/html'') [''<p>'']]))
       = Rejected (ErrorText (RedirectLimitExceeded (ofInt 0)))"
proof -
  let ?f = "fieldDefaults TEST1_URL"
  let ?f3 = "?f\<lparr> maxRedirects := ofInt 3 \<rparr>"
  note T = fresh_configuration_follows_no_redirect[of sampleURL "''http://foo-bar.nil/test1''" ?f
      "JSNumber (ofInt 3)" ?f 3 ?f3 "''/test2''" 1000 "[]" "[(''User-Agent'', ''node.js'')]"
      "Some ''/test2''" None "[]" "[Response None (Some ''text/html'') [''<p>'']]"]
  have A: "newScraperOpts sampleURL ''http://foo-bar.nil/test1'' = Inr ?f"
    by (simp add: url_defs string_defs char_defs)
  have a: "maxRedirects ?f = ofInt 0 \<and> totalRedirects ?f = 0"
    using T[THEN conjunct1, THEN mp, OF A] .
  have B: "withMaxRedirects (JSNumber (ofInt 3)) ?f = Inr ?f3"
    by (simp add: withMaxRedirects_def numberGe_def ofInt_def)
  have b: "\<exists>m. JSNumber (ofInt 3) = JSNumber m \<and> ?f3 = ?f\<lparr> maxRedirects := m \<rparr>"
    using T[THEN conjunct2, THEN conjunct2, THEN conjunct2, THEN conjunct1, THEN mp, OF B] .
  have c: "updateForRedirect sampleURL ''/test2'' ?f = Inl (RedirectLimitExceeded (ofInt 0))"
    using T[THEN conjunct2, THEN conjunct2, THEN conjunct2, THEN conjunct2, THEN conjunct1,
            THEN mp, OF a] .
  have D: "maxRedirects ?f = ofInt 0 \<and> totalRedirects ?f = 0
        \<and> fst (frequencyGate 1000 ?f []) = Pending
        \<and> requestHeaders ?f = Inr [(''User-Agent'', ''node.js'')]
        \<and> truthy (Some ''/test2'')"
    using a by (simp add: request_defs string_defs fieldDefaults_def TEST1_URL_def)
  have d: "outcome (requestHtml sampleURL 1000 ?f []
        (Response (Some ''/test2'') None [] # [Response None (Some ''text/html'') [''<p>'']]))
       = Rejected (ErrorText (RedirectLimitExceeded (ofInt 0)))"
    using T[THEN conjunct2, THEN conjunct2, THEN conjunct2, THEN conjunct2, THEN conjunct2,
            THEN mp, OF D] by (rule conjunct1)
  show ?thesis
    using A a B c d by (intro conjI) simp_all
qed

text \<open>C10, counterexample to the claim as stated: \<^verbatim>\<open>withMaxRedirects\<close> accepts 2.5 and
  \<^verbatim>\<open>NaN\<close>, which are not in the range 1 to 4.\<close>

theorem fractional_redirect_budget_accepted:
  "withMaxRedirects (JSNumber (Finite (5 / 2))) (fieldDefaults TEST1_URL)
     = Inr ((fieldDefaults TEST1_URL)\<lparr> maxRedirects := Finite (5 / 2) \<rparr>)
   \<and> withMaxRedirects (JSNumber NaN) (fieldDefaults TEST1_URL)
     = Inr ((fieldDefaults TEST1_URL)\<lparr> maxRedirects := NaN \<rparr>)
   \<and> withMaxRedirects (JSNumber (ofInt 0)) (fieldDefaults TEST1_URL)
     = Inl (IllegalMaxRedirects (JSNumber (ofInt 0)))
   \<and> withMaxRedirects (JSNumber (ofInt 5)) (fieldDefaults TEST1_URL)
     = Inl (IllegalMaxRedirects (JSNumber (ofInt 5)))"
  by (simp add: withMaxRedirects_def numberGe_def ofInt_def)

section \<open>Searching a text that grows\<close>

lemma indexOf_searchFrom:
  "indexOf s t f = (case searchFrom t s (clampIndex f (length s)) of None \<Rightarrow> - 1 | Some p \<Rightarrow> int p)"
  by (simp add: indexOf_def searchFrom_def Let_def split: option.splits)

lemma findToken_Some_iff:
  "findToken t s = Some j \<longleftrightarrow>
     j \<le> length s \<and> prefix t (drop j s) \<and> (\<forall>i<j. \<not> prefix t (drop i s))"
proof (induction s arbitrary: j)
  case Nil
  then show ?case by auto
next
  case (Cons c s)
  show ?case
  proof (cases "prefix t (c # s)")
    case True
    then show ?thesis by (cases j) auto
  next
    case False
    show ?thesis
    proof (cases j)
      case 0
      then show ?thesis using False by simp
    next
      case (Suc j')
      have "(\<forall>i<Suc j'. \<not> prefix t (drop i (c # s))) \<longleftrightarrow> (\<forall>i<j'. \<not> prefix t (drop i s))"
        using False by (auto simp: less_Suc_eq_0_disj)
      then show ?thesis using False Suc Cons.IH[of j'] by auto
    qed
  qed
qed

lemma findToken_None_iff:
  "findToken t s = None \<longleftrightarrow> (\<forall>i\<le>length s. \<not> prefix t (drop i s))"
proof (induction s)
  case Nil
  then show ?case by auto
next
  case (Cons c s)
  have "(\<forall>i\<le>Suc (length s). \<not> prefix t (drop i (c # s)))
      \<longleftrightarrow> \<not> prefix t (c # s) \<and> (\<forall>i\<le>length s. \<not> prefix t (drop i s))"
  proof
    assume a: "\<forall>i\<le>Suc (length s). \<not> prefix t (drop i (c # s))"
    have "\<not> prefix t (c # s)" using a[rule_format, of 0] by simp
    moreover have "\<not> prefix t (drop i s)" if "i \<le> length s" for i
      using a[rule_format, of "Suc i"] that by simp
    ultimately show "\<not> prefix t (c # s) \<and> (\<forall>i\<le>length s. \<not> prefix t (drop i s))" by blast
  next
    assume a: "\<not> prefix t (c # s) \<and> (\<forall>i\<le>length s. \<not> prefix t (drop i s))"
    show "\<forall>i\<le>Suc (length s). \<not> prefix t (drop i (c # s))"
    proof (intro allI impI)
      fix i assume "i \<le> Suc (length s)"
      then show "\<not> prefix t (drop i (c # s))" using a by (cases i) auto
    qed
  qed
  then show ?case using Cons by auto
qed

lemma searchFrom_Some_iff:
  assumes "k \<le> length s"
  shows "searchFrom t s k = Some p \<longleftrightarrow>
     k \<le> p \<and> p \<le> length s \<and> prefix t (drop p s)
     \<and> (\<forall>i. k \<le> i \<and> i < p \<longrightarrow> \<not> prefix t (drop i s))"
proof
  assume "searchFrom t s k = Some p"
  then obtain j where p: "p = k + j" and f: "findToken t (drop k s) = Some j"
    by (auto simp: searchFrom_def)
  from f have j: "j \<le> length s - k" "prefix t (drop (k + j) s)"
    and n: "\<forall>i<j. \<not> prefix t (drop (k + i) s)"
    by (simp_all add: findToken_Some_iff add.commute)
  have "\<not> prefix t (drop i s)" if "k \<le> i" "i < p" for i
    using n that p by (metis add_diff_inverse_nat less_diff_conv2 not_less add.commute)
  then show "k \<le> p \<and> p \<le> length s \<and> prefix t (drop p s)
     \<and> (\<forall>i. k \<le> i \<and> i < p \<longrightarrow> \<not> prefix t (drop i s))"
    using p j assms by auto
next
  assume r: "k \<le> p \<and> p \<le> length s \<and> prefix t (drop p s)
     \<and> (\<forall>i. k \<le> i \<and> i < p \<longrightarrow> \<not> prefix t (drop i s))"
  then have "findToken t (drop k s) = Some (p - k)"
    by (auto simp: findToken_Some_iff add.commute)
  then show "searchFrom t s k = Some p" using r by (simp add: searchFrom_def)
qed

lemma searchFrom_None_iff:
  assumes "k \<le> length s"
  shows "searchFrom t s k = None \<longleftrightarrow>
     (\<forall>i. k \<le> i \<and> i \<le> length s \<longrightarrow> \<not> prefix t (drop i s))"
proof
  assume "searchFrom t s k = None"
  then have n: "\<forall>i\<le>length s - k. \<not> prefix t (drop (k + i) s)"
    by (simp add: searchFrom_def findToken_None_iff add.commute)
  show "\<forall>i. k \<le> i \<and> i \<le> length s \<longrightarrow> \<not> prefix t (drop i s)"
  proof (intro allI impI)
    fix i assume "k \<le> i \<and> i \<le> length s"
    then have "i - k \<le> length s - k" "k + (i - k) = i" by auto
    then show "\<not> prefix t (drop i s)" using n by metis
  qed
next
  assume "\<forall>i. k \<le> i \<and> i \<le> length s \<longrightarrow> \<not> prefix t (drop i s)"
  then show "searchFrom t s k = None"
    using assms by (auto simp: searchFrom_def findToken_None_iff add.commute)
qed

lemma prefix_append_long:
  assumes "length t \<le> length a"
  shows "prefix t (a @ x) \<longleftrightarrow> prefix t a"
proof
  assume "prefix t (a @ x)"
  then obtain zs where "a @ x = t @ zs" by (auto elim: prefixE)
  then have "take (length t) (a @ x) = t" by simp
  then have "take (length t) a = t" using assms by simp
  then show "prefix t a" by (metis take_is_prefix)
next
  assume "prefix t a"
  then show "prefix t (a @ x)" by (rule prefix_prefix)
qed

lemma prefix_drop_append:
  "i + length t \<le> length s \<Longrightarrow> prefix t (drop i (s @ x)) \<longleftrightarrow> prefix t (drop i s)"
  by (simp add: prefix_append_long)

lemma prefix_drop_length: "t \<noteq> [] \<Longrightarrow> prefix t (drop i s) \<Longrightarrow> i + length t \<le> length s"
  using prefix_length_le[of t "drop i s"] by (cases "i < length s") auto

lemma searchFrom_extend:
  assumes "t \<noteq> []" and "k \<le> length s" and "searchFrom t s k = Some p"
  shows "searchFrom t (s @ x) k = Some p" and "p + length t \<le> length s"
proof -
  from assms(3) have p: "k \<le> p" "p \<le> length s" "prefix t (drop p s)"
    and n: "\<forall>i. k \<le> i \<and> i < p \<longrightarrow> \<not> prefix t (drop i s)"
    using searchFrom_Some_iff[OF assms(2)] by auto
  show len: "p + length t \<le> length s" using prefix_drop_length[OF assms(1) p(3)] .
  have "\<not> prefix t (drop i (s @ x))" if "k \<le> i" "i < p" for i
  proof -
    have "i + length t \<le> length s" using that len by simp
    then show ?thesis using n that prefix_drop_append by blast
  qed
  moreover have "prefix t (drop p (s @ x))" using p(3) len by (simp add: prefix_drop_append)
  ultimately show "searchFrom t (s @ x) k = Some p"
    using p assms(2) by (subst searchFrom_Some_iff) auto
qed

lemma searchFrom_skip:
  assumes "k \<le> k'" and "k' \<le> length s"
    and "\<forall>i. k \<le> i \<and> i < k' \<longrightarrow> \<not> prefix t (drop i s)"
  shows "searchFrom t s k = searchFrom t s k'"
proof (cases "searchFrom t s k'")
  case None
  then have "\<forall>i. k' \<le> i \<and> i \<le> length s \<longrightarrow> \<not> prefix t (drop i s)"
    using searchFrom_None_iff[OF assms(2)] by simp
  then have "\<forall>i. k \<le> i \<and> i \<le> length s \<longrightarrow> \<not> prefix t (drop i s)"
    using assms(3) by (metis not_less)
  then show ?thesis using None searchFrom_None_iff[of k s t] assms by simp
next
  case (Some p)
  then have p: "k' \<le> p" "p \<le> length s" "prefix t (drop p s)"
    and n: "\<forall>i. k' \<le> i \<and> i < p \<longrightarrow> \<not> prefix t (drop i s)"
    using searchFrom_Some_iff[OF assms(2)] by auto
  have "\<forall>i. k \<le> i \<and> i < p \<longrightarrow> \<not> prefix t (drop i s)"
    using assms(3) n by (metis not_less)
  then have "searchFrom t s k = Some p"
    using p assms(1,2) by (subst searchFrom_Some_iff) auto
  then show ?thesis using Some by simp
qed

lemma clampIndex_le: "clampIndex f n \<le> n"
  by (simp add: clampIndex_def)

lemma clampIndex_append: "f \<le> int n \<Longrightarrow> clampIndex f (n + m) = clampIndex f n"
  by (auto simp: clampIndex_def)

lemma indexOf_found_iff:
  "0 \<le> indexOf s t f \<longleftrightarrow> (\<exists>p. searchFrom t s (clampIndex f (length s)) = Some p)"
  by (simp add: indexOf_searchFrom split: option.splits)

lemma indexOf_missing_iff:
  "indexOf s t f < 0 \<longleftrightarrow> searchFrom t s (clampIndex f (length s)) = None"
  by (simp add: indexOf_searchFrom split: option.splits)

lemma indexOf_extend:
  assumes "t \<noteq> []" and "0 \<le> indexOf s t f"
  shows "indexOf (s @ x) t f = indexOf s t f"
    and "indexOf s t f + int (length t) \<le> int (length s)"
proof -
  let ?k = "clampIndex f (length s)"
  from assms(2) obtain p where sp: "searchFrom t s ?k = Some p"
    using indexOf_found_iff by blast
  have ip: "indexOf s t f = int p" using sp by (simp add: indexOf_searchFrom)
  have kl: "?k \<le> length s" by (rule clampIndex_le)
  have len: "p + length t \<le> length s" using searchFrom_extend(2)[OF assms(1) kl sp] .
  have "?k \<le> p" using sp searchFrom_Some_iff[OF kl] by blast
  then have "?k < length s" using len assms(1) by (cases t) auto
  then have "f \<le> int (length s)" by (auto simp: clampIndex_def split: if_splits)
  then have k': "clampIndex f (length (s @ x)) = ?k" by (simp add: clampIndex_append)
  have "searchFrom t (s @ x) ?k = Some p" using searchFrom_extend(1)[OF assms(1) kl sp] .
  then show "indexOf (s @ x) t f = indexOf s t f"
    using ip k' by (simp add: indexOf_searchFrom)
  show "indexOf s t f + int (length t) \<le> int (length s)" using ip len by simp
qed

lemma substringFrom_nat: "0 \<le> a \<Longrightarrow> substringFrom s a = drop (nat a) s"
  by (simp add: substringFrom_def clampIndex_def min_def)

lemma substring_take: "0 \<le> m \<Longrightarrow> substring s 0 m = take (nat m) s"
  by (simp add: substring_def clampIndex_def min_def)

lemma substr_clip:
  assumes "t \<noteq> []"
  obtains k where "substr p (1 - int (length t)) = drop k p" and "k \<le> length p"
    and "k = 0 \<or> k + length t = length p + 1"
proof -
  have "length t \<noteq> 0" using assms by simp
  then consider (one) "length t = 1"
    | (short) "2 \<le> length t" "length p + 1 \<le> length t"
    | (long) "2 \<le> length t" "length t < length p + 1"
    by linarith
  then show thesis
  proof cases
    case one
    then have "substr p (1 - int (length t)) = drop 0 p" by (simp add: substr_def)
    then show thesis using that[of 0] by simp
  next
    case short
    then have "1 - int (length t) < 0" "max (int (length p) + (1 - int (length t))) 0 = 0"
      by simp_all
    then have "substr p (1 - int (length t)) = drop 0 p" by (simp add: substr_def)
    then show thesis using that[of 0] by simp
  next
    case long
    then have neg: "1 - int (length t) < 0" by simp
    have "nat (max (int (length p) + (1 - int (length t))) 0) = length p + 1 - length t"
      using long by simp
    then have "substr p (1 - int (length t)) = drop (length p + 1 - length t) p"
      using neg by (simp add: substr_def)
    then show thesis using that[of "length p + 1 - length t"] long by simp
  qed
qed

lemma start_tail:
  assumes t: "t \<noteq> []" and miss: "indexOf p t 0 < 0"
  shows "indexOf (substr p (1 - int (length t)) @ x) t 0 < 0 \<longleftrightarrow> indexOf (p @ x) t 0 < 0"
    and "0 \<le> indexOf (p @ x) t 0 \<Longrightarrow>
         substringFrom (substr p (1 - int (length t)) @ x)
             (indexOf (substr p (1 - int (length t)) @ x) t 0 + int (length t))
         = substringFrom (p @ x) (indexOf (p @ x) t 0 + int (length t))"
proof -
  obtain k where tail: "substr p (1 - int (length t)) = drop k p" and kp: "k \<le> length p"
    and k: "k = 0 \<or> k + length t = length p + 1"
    using substr_clip[OF t] by blast
  have none: "\<not> prefix t (drop i p)" for i
  proof (cases "i \<le> length p")
    case True
    have "searchFrom t p 0 = None" using miss indexOf_missing_iff[of p t 0] by (simp add: clampIndex_def)
    then show ?thesis using True searchFrom_None_iff[of 0 p t] by simp
  next
    case False
    then show ?thesis using t by simp
  qed
  have before: "\<forall>i. 0 \<le> i \<and> i < k \<longrightarrow> \<not> prefix t (drop i (p @ x))"
  proof (intro allI impI)
    fix i assume "0 \<le> i \<and> i < k"
    then have "i + length t \<le> length p" using k by auto
    then show "\<not> prefix t (drop i (p @ x))" using none prefix_drop_append by blast
  qed
  have "searchFrom t (p @ x) 0 = searchFrom t (p @ x) k"
    using before kp by (intro searchFrom_skip) auto
  also have "\<dots> = map_option (\<lambda>j. k + j) (findToken t (drop k p @ x))"
    using kp by (simp add: searchFrom_def)
  finally have whole: "searchFrom t (p @ x) 0 = map_option (\<lambda>j. k + j) (findToken t (drop k p @ x))" .
  have part: "searchFrom t (drop k p @ x) 0 = findToken t (drop k p @ x)"
    by (simp add: searchFrom_def option.map_ident)
  have iw: "indexOf (p @ x) t 0
      = (case findToken t (drop k p @ x) of None \<Rightarrow> - 1 | Some j \<Rightarrow> int (k + j))"
    using whole by (simp add: indexOf_searchFrom clampIndex_def split: option.splits)
  have ip: "indexOf (drop k p @ x) t 0
      = (case findToken t (drop k p @ x) of None \<Rightarrow> - 1 | Some j \<Rightarrow> int j)"
    using part by (simp add: indexOf_searchFrom clampIndex_def split: option.splits)
  show "indexOf (substr p (1 - int (length t)) @ x) t 0 < 0 \<longleftrightarrow> indexOf (p @ x) t 0 < 0"
    unfolding tail iw ip by (simp split: option.splits)
  show "substringFrom (substr p (1 - int (length t)) @ x)
             (indexOf (substr p (1 - int (length t)) @ x) t 0 + int (length t))
         = substringFrom (p @ x) (indexOf (p @ x) t 0 + int (length t))"
    if "0 \<le> indexOf (p @ x) t 0"
  proof -
    from that obtain j where j: "findToken t (drop k p @ x) = Some j"
      unfolding iw by (auto split: option.splits)
    have "drop (j + length t) (drop k p @ x) = drop (k + j + length t) (p @ x)"
      using kp by (simp add: add.commute add.left_commute)
    then show ?thesis
      unfolding tail iw ip j by (simp add: substringFrom_nat nat_add_distrib)
  qed
qed

lemma substring_from_zero: "substring s 0 m = take (clampIndex m (length s)) s"
  by (simp add: substring_def clampIndex_def)

lemma substring_of_prefix:
  assumes "m \<le> int (length r)"
  shows "substring (r @ x) 0 m = substring r 0 m"
  using assms by (simp add: substring_from_zero clampIndex_def)

lemma clampIndex_below: "f \<le> int n \<Longrightarrow> n \<le> m \<Longrightarrow> clampIndex f m = clampIndex f n"
  by (auto simp: clampIndex_def)

lemma clampIndex_nat: "n \<le> m \<Longrightarrow> clampIndex (int n) m = n"
  by (simp add: clampIndex_def)

lemma clampIndex_diff: "clampIndex (int n - int k) n = n - k"
  by (auto simp: clampIndex_def)

lemma match_in_prefix:
  assumes "prefix t (drop i ret)" and "i \<le> length ret"
  shows "prefix t (drop i (ret @ x))"
  using assms by (simp add: prefix_prefix)

lemma indexOf_nowhere:
  assumes "t \<noteq> []" and "indexOf s t f < 0" and "clampIndex f (length s) \<le> i"
  shows "\<not> prefix t (drop i s)"
proof (cases "i \<le> length s")
  case True
  have "searchFrom t s (clampIndex f (length s)) = None"
    using assms(2) indexOf_missing_iff by blast
  then show ?thesis
    using searchFrom_None_iff[OF clampIndex_le, of t s f] assms(3) True by blast
next
  case False
  then show ?thesis using assms(1) by simp
qed

lemma found_beyond_prefix:
  assumes t: "t \<noteq> []" and miss: "indexOf ret t f < 0" and f: "f \<le> int (length ret)"
    and hit: "0 \<le> indexOf (ret @ x) t f"
  shows "int (length ret) < indexOf (ret @ x) t f + int (length t)"
proof -
  let ?k = "clampIndex f (length ret)"
  have k: "clampIndex f (length (ret @ x)) = ?k" using f by (simp add: clampIndex_append)
  from hit obtain p where sp: "searchFrom t (ret @ x) ?k = Some p"
    using indexOf_found_iff[of "ret @ x" t f] k by auto
  have ip: "indexOf (ret @ x) t f = int p" using sp k by (simp add: indexOf_searchFrom)
  have kl: "?k \<le> length (ret @ x)" using clampIndex_le[of f "length ret"] by simp
  have p: "?k \<le> p" "prefix t (drop p (ret @ x))"
    using sp searchFrom_Some_iff[OF kl] by auto
  have "\<not> p + length t \<le> length ret"
  proof
    assume "p + length t \<le> length ret"
    then have "prefix t (drop p ret)" using p(2) prefix_drop_append by blast
    then show False using indexOf_nowhere[OF t miss p(1)] by simp
  qed
  then show ?thesis using ip by simp
qed

section \<open>The token scanner, chunk by chunk\<close>

text \<open>
  The scan of a chunk is split into the scan of the pending data (\<^const>\<open>scanPending\<close>) and
  its second half (\<^const>\<open>finishScan\<close>). Under the two conditions on the kept text, scanning
  a chunk and then flushing the data still to come leaves the output that flushing both at
  once leaves (\<open>chunk_step\<close>), and \<^const>\<open>scannerInv\<close> holds between chunks.
\<close>

lemma processChunkTokens_alt:
  "processChunkTokens opts st c force =
     (if isRequestDestroyed st \<and> bufferedData st = [] then st
      else if int (length (bufferedData st @ c)) < chunkBufferSizeOf opts \<and> \<not> force
           then st\<lparr> bufferedData := bufferedData st @ c \<rparr>
           else scanPending opts st (bufferedData st @ c))"
  unfolding processChunkTokens_def scanPending_def finishScan_def movePending_def Let_def
  by (simp split: prod.splits bool.splits)

lemma searchStartToken_found:
  "isStartTokenFound st \<Longrightarrow> searchStartToken opts st = (True, st)"
  by (simp add: searchStartToken_def)

lemma searchStartToken_miss:
  assumes "\<not> isStartTokenFound st" and "indexOf (bufferedData st) (startTokenOf opts) 0 < 0"
  shows "searchStartToken opts st
     = (False, st\<lparr> bufferedData := substr (bufferedData st) (1 - startTokenLength opts) \<rparr>)"
  using assms by (simp add: searchStartToken_def Let_def)

lemma finishScan_hit:
  assumes "stopTokenOf opts \<noteq> []"
    and "0 \<le> indexOf (retHtml st) (stopTokenOf opts) (minStopTokenIndexInAllHtml st)"
  shows "finishScan opts st
     = st\<lparr> retHtml := substring (retHtml st) 0
               (min (indexOf (retHtml st) (stopTokenOf opts) (minStopTokenIndexInAllHtml st)
                      + (if isStopTokenIncluded opts then stopTokenLength opts else 0))
                    (maxHtmlSize opts)),
            isRequestDestroyed := True \<rparr>"
  using assms by (simp add: finishScan_def searchStopToken_def destroyRequest_def Let_def)

lemma flush_live:
  assumes "\<not> isRequestDestroyed st" and "isStartTokenFound st" and "bufferedData st = []"
  shows "processChunkTokens opts st x True = finishScan opts (st\<lparr> retHtml := retHtml st @ x \<rparr>)"
proof -
  have "movePending (st\<lparr> bufferedData := x \<rparr>) = st\<lparr> retHtml := retHtml st @ x \<rparr>"
    using assms(3) by (cases st) (simp add: movePending_def)
  then show ?thesis
    using assms by (simp add: processChunkTokens_alt scanPending_def searchStartToken_found)
qed

lemma scanPending_reset: "scanPending opts (st\<lparr> bufferedData := y \<rparr>) p = scanPending opts st p"
  by (simp add: scanPending_def)

lemma scanPending_found:
  assumes "isStartTokenFound st"
  shows "scanPending opts st p
       = finishScan opts (st\<lparr> retHtml := retHtml st @ p, bufferedData := [] \<rparr>)"
  using assms by (simp add: scanPending_def searchStartToken_found movePending_def)

lemma scanPending_miss:
  assumes "\<not> isStartTokenFound st" and "indexOf p (startTokenOf opts) 0 < 0"
  shows "scanPending opts st p = st\<lparr> bufferedData := substr p (1 - startTokenLength opts) \<rparr>"
  using assms searchStartToken_miss[of "st\<lparr> bufferedData := p \<rparr>" opts]
  by (simp add: scanPending_def)

lemma scanPending_hit:
  assumes "\<not> isStartTokenFound st" and "0 \<le> indexOf p (startTokenOf opts) 0"
  shows "scanPending opts st p
       = finishScan opts (afterStart opts st
           (substringFrom p (indexOf p (startTokenOf opts) 0 + startTokenLength opts)))"
  using assms
  by (cases st)
     (simp add: scanPending_def searchStartToken_def Let_def movePending_def afterStart_def)

lemma substringFrom_append:
  assumes "0 \<le> a" and "a \<le> int (length b)"
  shows "substringFrom (b @ x) a = substringFrom b a @ x"
  using assms by (simp add: substringFrom_nat)

lemma counting_destroyed:
  "isRequestDestroyed st \<Longrightarrow> foldl (\<lambda>s c. processChunkCounting s c) st cs = st"
  by (induction cs) (simp_all add: processChunkCounting_def)

lemma concat_oneByteChunks: "concat (oneByteChunks body) = body"
  by (induction body) (simp_all add: oneByteChunks_def)

lemma enforceMaxHtmlSize_retHtml:
  "retHtml (enforceMaxHtmlSize opts st)
     = (if int (length (retHtml st)) < maxHtmlSize opts then retHtml st
        else substring (retHtml st) 0 (maxHtmlSize opts))"
  by (simp add: enforceMaxHtmlSize_def destroyRequest_def substring_from_zero clampIndex_def)

lemma enforceMaxHtmlSize_live:
  "isRequestDestroyed (enforceMaxHtmlSize opts st)
     \<longleftrightarrow> isRequestDestroyed st \<or> \<not> int (length (retHtml st)) < maxHtmlSize opts"
  by (simp add: enforceMaxHtmlSize_def destroyRequest_def)

lemma floorSound_indexOf:
  assumes fs: "floorSound opts f ret r" and le: "length ret \<le> length r"
  shows "indexOf r (stopTokenOf opts) f = indexOf r (stopTokenOf opts) (int (stopSearchStart opts))"
proof -
  let ?t = "stopTokenOf opts"
  let ?n = "stopSearchStart opts"
  let ?k = "clampIndex f (length ret)"
  have f: "f \<le> int (length ret)" and n: "?n \<le> length ret"
    using fs by (simp_all add: floorSound_def)
  have no: "\<not> prefix ?t (drop i r)" if "(?k \<le> i \<and> i < ?n) \<or> (?n \<le> i \<and> i < ?k)" for i
    using fs that unfolding floorSound_def by blast
  have k: "clampIndex f (length r) = ?k" using f le by (rule clampIndex_below)
  have n': "clampIndex (int ?n) (length r) = ?n" using n le by (simp add: clampIndex_nat)
  have kl: "?k \<le> length r" using clampIndex_le[of f "length ret"] le by simp
  have "searchFrom ?t r ?k = searchFrom ?t r ?n"
  proof (cases "?k \<le> ?n")
    case True
    show ?thesis using True n le no by (intro searchFrom_skip) auto
  next
    case False
    then have "searchFrom ?t r ?n = searchFrom ?t r ?k"
      using kl no by (intro searchFrom_skip) auto
    then show ?thesis by simp
  qed
  then show ?thesis by (simp add: indexOf_searchFrom k n')
qed

lemma floorSound_advance:
  assumes t: "stopTokenOf opts \<noteq> []"
    and fs: "floorSound opts f ret (ret @ x)"
    and miss: "indexOf ret (stopTokenOf opts) f < 0"
    and h2: "\<not> stopTokenLeavesStartToken opts (ret @ x)"
  shows "floorSound opts (int (length ret) - stopTokenLength opts) ret (ret @ x)"
    and "indexOf ret (stopTokenOf opts) (int (length ret) - stopTokenLength opts) < 0"
proof -
  let ?t = "stopTokenOf opts"
  let ?n = "stopSearchStart opts"
  let ?k = "clampIndex f (length ret)"
  let ?f' = "int (length ret) - stopTokenLength opts"
  let ?k' = "length ret - length ?t"
  have f: "f \<le> int (length ret)" and n: "?n \<le> length ret"
    using fs by (simp_all add: floorSound_def)
  have no: "\<not> prefix ?t (drop i (ret @ x))"
    if "(?k \<le> i \<and> i < ?n) \<or> (?n \<le> i \<and> i < ?k)" for i
    using fs that unfolding floorSound_def by blast
  have k': "clampIndex ?f' (length ret) = ?k'"
    by (simp add: stopTokenLength_def clampIndex_diff)
  have inside: "\<not> prefix ?t (drop i ret)" if "?k \<le> i" for i
    using indexOf_nowhere[OF t miss that] .
  have low: "\<not> prefix ?t (drop i (ret @ x))" if "?k' \<le> i" "i < ?n" for i
  proof
    assume m: "prefix ?t (drop i (ret @ x))"
    have "?n \<le> i + length ?t" using that(1) n by simp
    then have "stopTokenLeavesStartToken opts (ret @ x)"
      using m that(2) t by (auto simp: stopTokenLeavesStartToken_def list_ex_iff)
    then show False using h2 by simp
  qed
  have high: "\<not> prefix ?t (drop i (ret @ x))" if "?n \<le> i" "i < ?k'" for i
  proof
    assume m: "prefix ?t (drop i (ret @ x))"
    have "i + length ?t \<le> length ret" using that(2) by simp
    then have mr: "prefix ?t (drop i ret)" using m prefix_drop_append by blast
    show False
    proof (cases "?k \<le> i")
      case True
      then show False using inside mr by simp
    next
      case False
      then show False using no[of i] that(1) m by simp
    qed
  qed
  show "floorSound opts ?f' ret (ret @ x)"
    unfolding floorSound_def k' using n low high by (auto simp: stopTokenLength_def)
  have "\<not> prefix ?t (drop i ret)" if "?k' \<le> i" for i
  proof
    assume mr: "prefix ?t (drop i ret)"
    have il: "i \<le> length ret" using prefix_drop_length[OF t mr] by simp
    have m: "prefix ?t (drop i (ret @ x))" using mr il by (rule match_in_prefix)
    show False
    proof (cases "?k \<le> i")
      case True
      then show False using inside mr by simp
    next
      case nk: False
      show False
      proof (cases "?n \<le> i")
        case True
        then show False using no[of i] nk m by simp
      next
        case False
        then show False using low[of i] that m by simp
      qed
    qed
  qed
  then have "searchFrom ?t ret ?k' = None"
    using searchFrom_None_iff[of ?k' ret ?t] by simp
  then show "indexOf ret ?t ?f' < 0"
    using indexOf_missing_iff[of ret ?t ?f'] k' by simp
qed

lemma finishScan_retHtml:
  "retHtml (finishScan opts st) =
     (if stopTokenOf opts \<noteq> []
         \<and> 0 \<le> indexOf (retHtml st) (stopTokenOf opts) (minStopTokenIndexInAllHtml st)
      then substring (retHtml st) 0
             (min (indexOf (retHtml st) (stopTokenOf opts) (minStopTokenIndexInAllHtml st)
                    + (if isStopTokenIncluded opts then stopTokenLength opts else 0))
                  (maxHtmlSize opts))
      else if int (length (retHtml st)) < maxHtmlSize opts then retHtml st
      else substring (retHtml st) 0 (maxHtmlSize opts))"
  by (simp add: finishScan_def searchStopToken_def Let_def destroyRequest_def
        enforceMaxHtmlSize_retHtml)

lemma finishScan_destroyed:
  "isRequestDestroyed (finishScan opts st) \<longleftrightarrow>
     isRequestDestroyed st
     \<or> (stopTokenOf opts \<noteq> []
         \<and> 0 \<le> indexOf (retHtml st) (stopTokenOf opts) (minStopTokenIndexInAllHtml st))
     \<or> \<not> int (length (retHtml st)) < maxHtmlSize opts"
  by (simp add: finishScan_def searchStopToken_def Let_def destroyRequest_def
        enforceMaxHtmlSize_live)

lemma finishScan_bufferedData: "bufferedData (finishScan opts st) = bufferedData st"
  by (simp add: finishScan_def searchStopToken_def Let_def destroyRequest_def
        enforceMaxHtmlSize_def)

lemma finishScan_live:
  assumes "\<not> isRequestDestroyed (finishScan opts st)"
  shows "finishScan opts st
       = (if stopTokenOf opts \<noteq> []
          then st\<lparr> minStopTokenIndexInAllHtml :=
                     int (length (retHtml st)) - stopTokenLength opts \<rparr>
          else st)"
  using assms
  by (simp add: finishScan_def searchStopToken_def Let_def destroyRequest_def
        enforceMaxHtmlSize_def split: if_splits)

lemma flush_destroyed:
  assumes "isRequestDestroyed st" and "bufferedData st = []"
  shows "processChunkTokens opts st x force = st"
  using assms by (simp add: processChunkTokens_alt)

lemma stop_phase:
  assumes live: "\<not> isRequestDestroyed st" "isStartTokenFound st" "bufferedData st = []"
    and fs: "stopTokenOf opts \<noteq> [] \<longrightarrow>
               floorSound opts (minStopTokenIndexInAllHtml st) (retHtml st) (retHtml st @ x)"
    and h1: "\<not> stopTokenStraddlesBudget opts (retHtml st @ x)"
    and h2: "\<not> stopTokenLeavesStartToken opts (retHtml st @ x)"
  shows "retHtml (processChunkTokens opts (finishScan opts st) x True)
       = retHtml (finishScan opts (st\<lparr> retHtml := retHtml st @ x \<rparr>))"
    and "scannerInv opts (finishScan opts st) x (retHtml st @ x)"
proof -
  let ?t = "stopTokenOf opts"
  let ?r = "retHtml st"
  let ?R = "retHtml st @ x"
  let ?f = "minStopTokenIndexInAllHtml st"
  let ?f' = "int (length ?r) - stopTokenLength opts"
  let ?M = "maxHtmlSize opts"
  let ?off = "if isStopTokenIncluded opts then stopTokenLength opts else 0"
  let ?whole = "st\<lparr> retHtml := ?R \<rparr>"
  have whole: "retHtml ?whole = ?R" "minStopTokenIndexInAllHtml ?whole = ?f" by simp_all
  have both: "retHtml (processChunkTokens opts (finishScan opts st) x True)
       = retHtml (finishScan opts ?whole)
     \<and> scannerInv opts (finishScan opts st) x ?R"
  proof (cases "isRequestDestroyed (finishScan opts st)")
    case dead: True
    have buf: "bufferedData (finishScan opts st) = []"
      using live(3) by (simp add: finishScan_bufferedData)
    have inv: "scannerInv opts (finishScan opts st) x ?R"
      using dead buf by (simp add: scannerInv_def)
    have lhs: "processChunkTokens opts (finishScan opts st) x True = finishScan opts st"
      using dead buf by (rule flush_destroyed)
    have "retHtml (finishScan opts st) = retHtml (finishScan opts ?whole)"
    proof (cases "?t \<noteq> [] \<and> 0 \<le> indexOf ?r ?t ?f")
      case True
      then have t: "?t \<noteq> []" and hit: "0 \<le> indexOf ?r ?t ?f" by simp_all
      have ext: "indexOf ?R ?t ?f = indexOf ?r ?t ?f"
        and len: "indexOf ?r ?t ?f + int (length ?t) \<le> int (length ?r)"
        using indexOf_extend[OF t hit] by simp_all
      have m: "min (indexOf ?r ?t ?f + ?off) ?M \<le> int (length ?r)"
        using len by (auto simp: stopTokenLength_def min_def)
      show ?thesis
        unfolding finishScan_retHtml whole ext using True substring_of_prefix[OF m, of x]
        by simp
    next
      case False
      then have over: "\<not> int (length ?r) < ?M"
        using dead live(1) by (auto simp: finishScan_destroyed)
      then have ml: "?M \<le> int (length ?r)" by simp
      have cut: "substring ?R 0 ?M = substring ?r 0 ?M"
        using ml by (rule substring_of_prefix)
      have l: "retHtml (finishScan opts st) = substring ?r 0 ?M"
        unfolding finishScan_retHtml using False over by auto
      have overR: "\<not> int (length ?R) < ?M" using over by simp
      have "retHtml (finishScan opts ?whole) = substring ?R 0 ?M"
      proof (cases "?t \<noteq> [] \<and> 0 \<le> indexOf ?R ?t ?f")
        case hitR: True
        then have t: "?t \<noteq> []" and hit: "0 \<le> indexOf ?R ?t ?f" by simp_all
        have miss: "indexOf ?r ?t ?f < 0" using False t by simp
        note fsd = fs[rule_format, OF t]
        have fle: "?f \<le> int (length ?r)" using fsd by (simp add: floorSound_def)
        have beyond: "int (length ?r) < indexOf ?R ?t ?f + int (length ?t)"
          using found_beyond_prefix[OF t miss fle hit] .
        have "min (indexOf ?R ?t ?f + ?off) ?M = ?M"
        proof (cases "isStopTokenIncluded opts")
          case True
          then show ?thesis using beyond ml by (simp add: stopTokenLength_def)
        next
          case excl: False
          have same: "indexOf ?R ?t ?f = indexOf ?R ?t (int (stopSearchStart opts))"
            using floorSound_indexOf[OF fsd] by simp
          have "\<not> (0 \<le> indexOf ?R ?t ?f \<and> indexOf ?R ?t ?f < ?M
                   \<and> ?M < indexOf ?R ?t ?f + stopTokenLength opts)"
            using h1 t excl unfolding stopTokenStraddlesBudget_def Let_def same by simp
          then have "?M \<le> indexOf ?R ?t ?f"
            using hit beyond ml by (simp add: stopTokenLength_def)
          then show ?thesis using excl by simp
        qed
        then show ?thesis
          unfolding finishScan_retHtml whole using hitR by simp
      next
        case False
        then show ?thesis
          unfolding finishScan_retHtml whole using overR by auto
      qed
      then show ?thesis using l cut by simp
    qed
    then show ?thesis using lhs inv by simp
  next
    case alive: False
    then have under: "int (length ?r) < ?M"
      and nohit: "?t \<noteq> [] \<Longrightarrow> indexOf ?r ?t ?f < 0"
      by (auto simp: finishScan_destroyed)
    show ?thesis
    proof (cases "?t = []")
      case True
      then have same: "finishScan opts st = st" using finishScan_live[OF alive] by simp
      have inv: "scannerInv opts st x ?R"
        using live under True by (simp add: scannerInv_def keptFrom_def)
      show ?thesis
        unfolding same using flush_live[OF live, of opts x] inv by simp
    next
      case t: False
      let ?st' = "st\<lparr> minStopTokenIndexInAllHtml := ?f' \<rparr>"
      have same: "finishScan opts st = ?st'" using finishScan_live[OF alive] t by simp
      note fsd = fs[rule_format, OF t]
      note adv = floorSound_advance[OF t fsd nohit[OF t] h2]
      have inv: "scannerInv opts ?st' x ?R"
        using live under adv by (simp add: scannerInv_def keptFrom_def)
      have i1: "indexOf ?R ?t ?f' = indexOf ?R ?t (int (stopSearchStart opts))"
        using floorSound_indexOf[OF adv(1)] by simp
      have i2: "indexOf ?R ?t ?f = indexOf ?R ?t (int (stopSearchStart opts))"
        using floorSound_indexOf[OF fsd] by simp
      have fl: "processChunkTokens opts ?st' x True = finishScan opts (?st'\<lparr> retHtml := ?R \<rparr>)"
        using flush_live[of ?st' opts x] live by simp
      have "retHtml (finishScan opts (?st'\<lparr> retHtml := ?R \<rparr>)) = retHtml (finishScan opts ?whole)"
        unfolding finishScan_retHtml using i1 i2 by simp
      then show ?thesis unfolding same using fl inv by simp
    qed
  qed
  show "retHtml (processChunkTokens opts (finishScan opts st) x True)
       = retHtml (finishScan opts (st\<lparr> retHtml := retHtml st @ x \<rparr>))"
    using both by (rule conjunct1)
  show "scannerInv opts (finishScan opts st) x (retHtml st @ x)"
    using both by (rule conjunct2)
qed

lemma floorSound_grow:
  assumes "floorSound opts f ret r"
  shows "floorSound opts f (ret @ p) r"
proof -
  have f: "f \<le> int (length ret)" using assms by (simp add: floorSound_def)
  have k: "clampIndex f (length (ret @ p)) = clampIndex f (length ret)"
    using f by (simp add: clampIndex_append)
  show ?thesis using assms unfolding floorSound_def k by auto
qed

lemma floorSound_start:
  assumes "stopSearchStart opts \<le> length ret"
  shows "floorSound opts (int (stopSearchStart opts)) ret r"
  using assms by (auto simp: floorSound_def clampIndex_nat)

lemma scanPending_step:
  assumes live: "\<not> isRequestDestroyed st"
    and inv: "scannerInv opts st (c @ x) r"
    and h1: "\<not> stopTokenStraddlesBudget opts r"
    and h2: "\<not> stopTokenLeavesStartToken opts r"
  shows "retHtml (processChunkTokens opts (scanPending opts st (bufferedData st @ c)) x True)
       = retHtml (scanPending opts st ((bufferedData st @ c) @ x))"
    and "scannerInv opts (scanPending opts st (bufferedData st @ c)) x r"
proof -
  let ?p = "bufferedData st @ c"
  have kept: "keptFrom opts st (c @ x) = r" using inv live by (simp add: scannerInv_def)
  have both: "retHtml (processChunkTokens opts (scanPending opts st ?p) x True)
       = retHtml (scanPending opts st (?p @ x))
     \<and> scannerInv opts (scanPending opts st ?p) x r"
  proof (cases "isStartTokenFound st")
    case True
    let ?st3 = "st\<lparr> retHtml := retHtml st @ ?p, bufferedData := [] \<rparr>"
    have r: "retHtml ?st3 @ x = r" using kept True by (simp add: keptFrom_def)
    have fs: "stopTokenOf opts \<noteq> [] \<longrightarrow>
        floorSound opts (minStopTokenIndexInAllHtml ?st3) (retHtml ?st3) (retHtml ?st3 @ x)"
      unfolding r using inv live True floorSound_grow[of opts _ "retHtml st" r ?p]
      by (simp add: scannerInv_def)
    have l3: "\<not> isRequestDestroyed ?st3" "isStartTokenFound ?st3" "bufferedData ?st3 = []"
      using live True by simp_all
    have h1': "\<not> stopTokenStraddlesBudget opts (retHtml ?st3 @ x)"
      and h2': "\<not> stopTokenLeavesStartToken opts (retHtml ?st3 @ x)"
      using h1 h2 by (simp_all only: r not_False_eq_True)
    note sp = stop_phase[OF l3 fs h1' h2']
    have e: "?st3\<lparr> retHtml := retHtml ?st3 @ x \<rparr>
        = st\<lparr> retHtml := retHtml st @ (?p @ x), bufferedData := [] \<rparr>"
      by (cases st) simp
    have "retHtml (processChunkTokens opts (scanPending opts st ?p) x True)
        = retHtml (processChunkTokens opts (finishScan opts ?st3) x True)"
      by (simp only: scanPending_found[OF True])
    also have "\<dots> = retHtml (finishScan opts (?st3\<lparr> retHtml := retHtml ?st3 @ x \<rparr>))"
      using sp(1) by simp
    also have "\<dots> = retHtml (scanPending opts st (?p @ x))"
      by (simp only: e scanPending_found[OF True])
    finally have a: "retHtml (processChunkTokens opts (scanPending opts st ?p) x True)
        = retHtml (scanPending opts st (?p @ x))" .
    have "scannerInv opts (finishScan opts ?st3) x r" using sp(2) by (simp only: r)
    then have b: "scannerInv opts (scanPending opts st ?p) x r"
      by (simp only: scanPending_found[OF True])
    show ?thesis using a b by simp
  next
    case False
    let ?s = "startTokenOf opts"
    have s: "?s \<noteq> []" and fresh: "retHtml st = []" "minStopTokenIndexInAllHtml st = 0"
      using inv live False by (simp_all add: scannerInv_def)
    have kept': "(if indexOf (?p @ x) ?s 0 < 0 then []
                  else (if isStartTokenIncluded opts then ?s else [])
                       @ substringFrom (?p @ x) (indexOf (?p @ x) ?s 0 + startTokenLength opts)) = r"
      using kept False by (simp only: keptFrom_def if_False append_assoc)
    show ?thesis
    proof (cases "0 \<le> indexOf ?p ?s 0")
      case True
      let ?i = "indexOf ?p ?s 0"
      let ?rest = "substringFrom ?p (?i + startTokenLength opts)"
      let ?st3 = "afterStart opts st ?rest"
      have ext: "indexOf (?p @ x) ?s 0 = ?i" and len: "?i + int (length ?s) \<le> int (length ?p)"
        using indexOf_extend[OF s True] by simp_all
      have rest: "substringFrom (?p @ x) (?i + startTokenLength opts) = ?rest @ x"
        using True len by (intro substringFrom_append) (simp_all add: startTokenLength_def)
      have r3: "retHtml ?st3 = (if isStartTokenIncluded opts then ?s else []) @ ?rest"
        using fresh by (simp add: afterStart_def)
      have r: "retHtml ?st3 @ x = r"
        using kept' True unfolding ext rest r3 by simp
      have f3: "minStopTokenIndexInAllHtml ?st3 = int (stopSearchStart opts)"
        using fresh s by (simp add: afterStart_def stopSearchStart_def startTokenLength_def)
      have n3: "stopSearchStart opts \<le> length (retHtml ?st3)"
        unfolding r3 by (simp add: stopSearchStart_def)
      have fs: "stopTokenOf opts \<noteq> [] \<longrightarrow>
          floorSound opts (minStopTokenIndexInAllHtml ?st3) (retHtml ?st3) (retHtml ?st3 @ x)"
        unfolding f3 using floorSound_start[OF n3] by (intro impI)
      have l3: "\<not> isRequestDestroyed ?st3" "isStartTokenFound ?st3" "bufferedData ?st3 = []"
        using live by (simp_all add: afterStart_def)
      have h1': "\<not> stopTokenStraddlesBudget opts (retHtml ?st3 @ x)"
        and h2': "\<not> stopTokenLeavesStartToken opts (retHtml ?st3 @ x)"
        using h1 h2 by (simp_all only: r not_False_eq_True)
      note sp = stop_phase[OF l3 fs h1' h2']
      have e: "?st3\<lparr> retHtml := retHtml ?st3 @ x \<rparr> = afterStart opts st (?rest @ x)"
        by (cases st) (simp add: afterStart_def)
      have hx: "0 \<le> indexOf (?p @ x) ?s 0" using ext True by simp
      have "retHtml (processChunkTokens opts (scanPending opts st ?p) x True)
          = retHtml (processChunkTokens opts (finishScan opts ?st3) x True)"
        by (simp only: scanPending_hit[OF False True])
      also have "\<dots> = retHtml (finishScan opts (?st3\<lparr> retHtml := retHtml ?st3 @ x \<rparr>))"
        using sp(1) by simp
      also have "\<dots> = retHtml (finishScan opts (afterStart opts st
             (substringFrom (?p @ x) (indexOf (?p @ x) ?s 0 + startTokenLength opts))))"
        by (simp only: e ext rest)
      also have "\<dots> = retHtml (scanPending opts st (?p @ x))"
        by (simp only: scanPending_hit[OF False hx])
      finally have a: "retHtml (processChunkTokens opts (scanPending opts st ?p) x True)
          = retHtml (scanPending opts st (?p @ x))" .
      have "scannerInv opts (finishScan opts ?st3) x r" using sp(2) by (simp only: r)
      then have b: "scannerInv opts (scanPending opts st ?p) x r"
        by (simp only: scanPending_hit[OF False True])
      show ?thesis using a b by simp
    next
      case miss: False
      then have neg: "indexOf ?p ?s 0 < 0" by simp
      let ?tail = "substr ?p (1 - int (length ?s))"
      let ?st' = "st\<lparr> bufferedData := ?tail \<rparr>"
      have l: "scanPending opts st ?p = ?st'"
        using scanPending_miss[OF False neg] by (simp add: startTokenLength_def)
      have fl: "processChunkTokens opts ?st' x True = scanPending opts st (?tail @ x)"
        using live by (simp add: processChunkTokens_alt scanPending_reset)
      have a: "retHtml (scanPending opts st (?tail @ x)) = retHtml (scanPending opts st (?p @ x))"
      proof (cases "0 \<le> indexOf (?p @ x) ?s 0")
        case True
        then have ht: "0 \<le> indexOf (?tail @ x) ?s 0"
          using start_tail(1)[OF s neg, of x] by simp
        have "scanPending opts st (?tail @ x) = scanPending opts st (?p @ x)"
          unfolding scanPending_hit[OF False ht] scanPending_hit[OF False True]
            startTokenLength_def
          using start_tail(2)[OF s neg True] by (simp only:)
        then show ?thesis by simp
      next
        case nf: False
        then have n: "indexOf (?p @ x) ?s 0 < 0" by simp
        then have "indexOf (?tail @ x) ?s 0 < 0" using start_tail(1)[OF s neg, of x] by simp
        then show ?thesis
          using n False scanPending_miss[of st "?tail @ x" opts]
            scanPending_miss[of st "?p @ x" opts]
          by simp
      qed
      have k: "keptFrom opts ?st' x = r"
      proof (cases "0 \<le> indexOf (?p @ x) ?s 0")
        case True
        then have ht: "0 \<le> indexOf (?tail @ x) ?s 0"
          using start_tail(1)[OF s neg, of x] by simp
        show ?thesis
          using kept' True ht False start_tail(2)[OF s neg True]
          by (simp add: keptFrom_def startTokenLength_def)
      next
        case nf: False
        then have n: "indexOf (?p @ x) ?s 0 < 0" by simp
        then have "indexOf (?tail @ x) ?s 0 < 0" using start_tail(1)[OF s neg, of x] by simp
        then show ?thesis using kept' n False by (simp add: keptFrom_def)
      qed
      have b: "scannerInv opts ?st' x r"
        using live False s fresh k by (simp add: scannerInv_def)
      show ?thesis unfolding l using fl a b by simp
    qed
  qed
  show "retHtml (processChunkTokens opts (scanPending opts st (bufferedData st @ c)) x True)
       = retHtml (scanPending opts st ((bufferedData st @ c) @ x))"
    using both by (rule conjunct1)
  show "scannerInv opts (scanPending opts st (bufferedData st @ c)) x r"
    using both by (rule conjunct2)
qed

lemma chunk_step:
  assumes inv: "scannerInv opts st (c @ x) r"
    and h1: "\<not> stopTokenStraddlesBudget opts r"
    and h2: "\<not> stopTokenLeavesStartToken opts r"
  shows "retHtml (processChunkTokens opts (processChunkTokens opts st c False) x True)
       = retHtml (processChunkTokens opts st (c @ x) True)"
    and "scannerInv opts (processChunkTokens opts st c False) x r"
proof -
  have both: "retHtml (processChunkTokens opts (processChunkTokens opts st c False) x True)
       = retHtml (processChunkTokens opts st (c @ x) True)
     \<and> scannerInv opts (processChunkTokens opts st c False) x r"
  proof (cases "isRequestDestroyed st")
    case True
    then have "bufferedData st = []" using inv by (simp add: scannerInv_def)
    then show ?thesis using True by (simp add: processChunkTokens_alt scannerInv_def)
  next
    case False
    let ?b = "bufferedData st @ c"
    have r: "processChunkTokens opts st (c @ x) True = scanPending opts st (?b @ x)"
      using False by (simp add: processChunkTokens_alt)
    show ?thesis
    proof (cases "int (length ?b) < chunkBufferSizeOf opts")
      case True
      let ?st' = "st\<lparr> bufferedData := ?b \<rparr>"
      have l: "processChunkTokens opts st c False = ?st'"
        using False True by (simp add: processChunkTokens_alt)
      have a: "processChunkTokens opts ?st' x True = scanPending opts st (?b @ x)"
        using False by (simp add: processChunkTokens_alt scanPending_reset)
      have "keptFrom opts ?st' x = keptFrom opts st (c @ x)" by (simp add: keptFrom_def)
      then have b: "scannerInv opts ?st' x r"
        using inv False by (simp add: scannerInv_def)
      show ?thesis unfolding l r a using b by simp
    next
      case scan: False
      then have l: "processChunkTokens opts st c False = scanPending opts st ?b"
        using False by (simp add: processChunkTokens_alt)
      show ?thesis
        unfolding l r using scanPending_step[OF False inv h1 h2] by simp
    qed
  qed
  show "retHtml (processChunkTokens opts (processChunkTokens opts st c False) x True)
       = retHtml (processChunkTokens opts st (c @ x) True)"
    using both by (rule conjunct1)
  show "scannerInv opts (processChunkTokens opts st c False) x r"
    using both by (rule conjunct2)
qed

lemma flush_settled:
  assumes inv: "scannerInv opts st [] r" and buf: "bufferedData st = []"
  shows "retHtml (processChunkTokens opts st [] True) = retHtml st"
proof (cases "isRequestDestroyed st")
  case True
  then show ?thesis using buf by (simp add: processChunkTokens_alt)
next
  case False
  then have p: "processChunkTokens opts st [] True = scanPending opts st []"
    using buf by (simp add: processChunkTokens_alt)
  show ?thesis
  proof (cases "isStartTokenFound st")
    case True
    have e: "st\<lparr> retHtml := retHtml st @ [], bufferedData := [] \<rparr> = st"
      using buf by (cases st) simp
    have f: "scanPending opts st [] = finishScan opts st"
      using scanPending_found[OF True, of opts "[]"] by (simp only: e)
    have size: "int (length (retHtml st)) < maxHtmlSize opts \<or> retHtml st = []"
      and miss: "stopTokenOf opts \<noteq> [] \<Longrightarrow>
          indexOf (retHtml st) (stopTokenOf opts) (minStopTokenIndexInAllHtml st) < 0"
      using inv False True by (simp_all add: scannerInv_def)
    have "substring [] 0 (maxHtmlSize opts) = []" by (simp add: substring_from_zero)
    then show ?thesis
      unfolding p f finishScan_retHtml using size miss by auto
  next
    case nf: False
    then have "startTokenOf opts \<noteq> []" using inv False by (simp add: scannerInv_def)
    then have "indexOf [] (startTokenOf opts) 0 < 0" by (simp add: indexOf_def clampIndex_def)
    then show ?thesis using p scanPending_miss[OF nf, of "[]" opts] by simp
  qed
qed

lemma feed_then_flush:
  assumes h1: "\<not> stopTokenStraddlesBudget opts r"
    and h2: "\<not> stopTokenLeavesStartToken opts r"
    and inv: "scannerInv opts st (concat cs) r"
  shows "retHtml (processChunkTokens opts
                    (foldl (\<lambda>s c. processChunkTokens opts s c False) st cs) [] True)
       = retHtml (processChunkTokens opts st (concat cs) True)
     \<and> scannerInv opts (foldl (\<lambda>s c. processChunkTokens opts s c False) st cs) [] r"
  using inv
proof (induction cs arbitrary: st)
  case Nil
  then show ?case by simp
next
  case (Cons c cs)
  let ?st' = "processChunkTokens opts st c False"
  have i: "scannerInv opts st (c @ concat cs) r" using Cons.prems by simp
  note step = chunk_step[OF i h1 h2]
  show ?case using Cons.IH[OF step(2)] step(1) by simp
qed

lemma initialScanner_inv: "scannerInv opts (initialScanner opts d) body (keptText opts body)"
proof -
  have "indexOf [] (stopTokenOf opts) 0 < 0" if "stopTokenOf opts \<noteq> []"
    using that by (simp add: indexOf_def clampIndex_def)
  moreover have "floorSound opts 0 [] r" if "startTokenOf opts = []" for r
    using that by (simp add: floorSound_def stopSearchStart_def clampIndex_def)
  ultimately show ?thesis
    by (simp add: scannerInv_def initialScanner_def keptFrom_def keptText_def)
qed

lemma scanBody_tokens:
  assumes mode: "startTokenOf opts \<noteq> [] \<or> stopTokenOf opts \<noteq> []"
    and h1: "\<not> stopTokenStraddlesBudget opts (keptText opts (concat cs))"
    and h2: "\<not> stopTokenLeavesStartToken opts (keptText opts (concat cs))"
  shows "scanBody opts d cs
       = retHtml (processChunkTokens opts (initialScanner opts d) (concat cs) True)"
proof -
  let ?init = "initialScanner opts d"
  let ?st = "foldl (\<lambda>s c. processChunkTokens opts s c False) ?init cs"
  have pc: "processChunk opts = processChunkTokens opts"
    using mode by (intro ext) (simp add: processChunk_def)
  note f = feed_then_flush[OF h1 h2 initialScanner_inv, of d]
  have "retHtml (doResolve opts ?st) = retHtml (processChunkTokens opts ?st [] True)"
  proof (cases "bufferedData ?st = []")
    case True
    then show ?thesis
      using flush_settled[OF f[THEN conjunct2] True] f by (simp add: doResolve_def)
  next
    case False
    then show ?thesis by (simp add: doResolve_def pc)
  qed
  then show ?thesis using f by (simp add: scanBody_def feedChunks_def pc)
qed

lemma buffering_only:
  assumes "\<not> isRequestDestroyed st"
    and "int (length (bufferedData st @ concat cs)) < chunkBufferSizeOf opts"
  shows "foldl (\<lambda>s c. processChunkTokens opts s c False) st cs
       = st\<lparr> bufferedData := bufferedData st @ concat cs \<rparr>"
  using assms
proof (induction cs arbitrary: st)
  case Nil
  then show ?case by simp
next
  case (Cons c cs)
  let ?st' = "st\<lparr> bufferedData := bufferedData st @ c \<rparr>"
  have "int (length (bufferedData st @ c)) < chunkBufferSizeOf opts"
    using Cons.prems(2) by simp
  then have "processChunkTokens opts st c False = ?st'"
    using Cons.prems(1) by (simp add: processChunkTokens_alt)
  moreover have "\<not> isRequestDestroyed ?st'"
    "int (length (bufferedData ?st' @ concat cs)) < chunkBufferSizeOf opts"
    using Cons.prems by simp_all
  ultimately show ?case using Cons.IH[of ?st'] by simp
qed

lemma feed_destroyed:
  assumes "isRequestDestroyed st" and "bufferedData st = []"
  shows "foldl (\<lambda>s c. processChunkTokens opts s c False) st cs = st"
  using assms by (induction cs) (simp_all add: flush_destroyed)

lemma scanBody_buffered:
  assumes mode: "startTokenOf opts \<noteq> [] \<or> stopTokenOf opts \<noteq> []"
    and small: "int (length (concat cs)) < chunkBufferSizeOf opts"
  shows "scanBody opts d cs
       = retHtml (processChunkTokens opts (initialScanner opts d) (concat cs) True)"
proof -
  let ?init = "initialScanner opts d"
  let ?st = "foldl (\<lambda>s c. processChunkTokens opts s c False) ?init cs"
  have pc: "processChunk opts = processChunkTokens opts"
    using mode by (intro ext) (simp add: processChunk_def)
  have b0: "bufferedData ?init = []" by (simp add: initialScanner_def)
  show ?thesis
  proof (cases d)
    case True
    then have dead: "isRequestDestroyed ?init" by (simp add: initialScanner_def)
    have "?st = ?init" using dead b0 by (rule feed_destroyed)
    then show ?thesis
      using b0 flush_destroyed[OF dead b0]
      by (simp add: scanBody_def feedChunks_def pc doResolve_def)
  next
    case False
    then have live: "\<not> isRequestDestroyed ?init" by (simp add: initialScanner_def)
    have st: "?st = ?init\<lparr> bufferedData := concat cs \<rparr>"
      using buffering_only[OF live, of cs opts] small b0 by simp
    have whole: "processChunkTokens opts ?init (concat cs) True
        = scanPending opts ?init (concat cs)"
      using live b0 by (simp add: processChunkTokens_alt)
    show ?thesis
    proof (cases "concat cs = []")
      case True
      have "retHtml (processChunkTokens opts ?init [] True) = retHtml ?init"
        using flush_settled[OF initialScanner_inv b0] .
      then have e: "retHtml (processChunkTokens opts ?init (concat cs) True) = retHtml ?init"
        unfolding True .
      have "?st = ?init" unfolding st True using b0 by simp
      then show ?thesis
        unfolding e using b0 by (simp add: scanBody_def feedChunks_def pc doResolve_def)
    next
      case ne: False
      have "processChunkTokens opts (?init\<lparr> bufferedData := concat cs \<rparr>) [] True
          = scanPending opts ?init (concat cs)"
        using live by (simp add: processChunkTokens_alt scanPending_reset)
      then show ?thesis
        using ne st whole by (simp add: scanBody_def feedChunks_def pc doResolve_def)
    qed
  qed
qed

lemma counting_feed:
  assumes "\<not> isRequestDestroyed st" and "int (length (concat cs)) < remainingChars st"
  shows "retHtml (foldl (\<lambda>s c. processChunkCounting s c) st cs) = retHtml st @ concat cs
       \<and> bufferedData (foldl (\<lambda>s c. processChunkCounting s c) st cs) = bufferedData st"
  using assms
proof (induction cs arbitrary: st)
  case Nil
  then show ?case by simp
next
  case (Cons c cs)
  let ?st' = "st\<lparr> remainingChars := remainingChars st - int (length c),
                  retHtml := retHtml st @ c \<rparr>"
  have "processChunkCounting st c = ?st'"
    using Cons.prems by (simp add: processChunkCounting_def Let_def)
  moreover have "\<not> isRequestDestroyed ?st'" "int (length (concat cs)) < remainingChars ?st'"
    using Cons.prems by simp_all
  ultimately show ?case using Cons.IH[of ?st'] by simp
qed

lemma counting_exact:
  assumes "\<not> isRequestDestroyed st" and "0 < remainingChars st"
    and "int (length (concat cs)) = remainingChars st"
  shows "retHtml (foldl (\<lambda>s c. processChunkCounting s c) st cs) = []
       \<and> bufferedData (foldl (\<lambda>s c. processChunkCounting s c) st cs) = bufferedData st"
  using assms
proof (induction cs arbitrary: st)
  case Nil
  then show ?case by simp
next
  case (Cons c cs)
  show ?case
  proof (cases "int (length c) = remainingChars st")
    case True
    let ?st' = "processChunkCounting st c"
    have d: "isRequestDestroyed ?st'" and r: "retHtml ?st' = []"
      and b: "bufferedData ?st' = bufferedData st"
      using Cons.prems(1) True
      by (simp_all add: processChunkCounting_def Let_def destroyRequest_def substring_from_zero
            clampIndex_def)
    show ?thesis using counting_destroyed[OF d, of cs] r b by simp
  next
    case False
    then have less: "int (length c) < remainingChars st" using Cons.prems(3) by simp
    let ?st' = "st\<lparr> remainingChars := remainingChars st - int (length c),
                    retHtml := retHtml st @ c \<rparr>"
    have "processChunkCounting st c = ?st'"
      using Cons.prems(1) less by (simp add: processChunkCounting_def Let_def)
    moreover have "\<not> isRequestDestroyed ?st'" "0 < remainingChars ?st'"
      "int (length (concat cs)) = remainingChars ?st'"
      using Cons.prems less by simp_all
    ultimately show ?thesis using Cons.IH[of ?st'] by simp
  qed
qed

lemma scanBody_counting:
  assumes mode: "startTokenOf opts = []" "stopTokenOf opts = []"
    and budget: "int (length (concat cs)) \<le> maxHtmlSize opts"
  shows "scanBody opts d cs
       = (if d \<or> int (length (concat cs)) = maxHtmlSize opts then [] else concat cs)"
proof -
  let ?init = "initialScanner opts d"
  have pc: "processChunk opts s c f = processChunkCounting s c" for s c f
    using mode by (simp add: processChunk_def)
  have fd: "feedChunks opts ?init cs = foldl (\<lambda>s c. processChunkCounting s c) ?init cs"
    by (simp add: feedChunks_def pc)
  have pos: "0 < maxHtmlSize opts"
  proof -
    have "maxHtmlSize opts \<noteq> 0" by (simp add: maxHtmlSize_def DEFAULT_MAX_SIZE_def)
    moreover have "0 \<le> maxHtmlSize opts" using budget by simp
    ultimately show ?thesis by simp
  qed
  show ?thesis
  proof (cases d)
    case True
    then have "feedChunks opts ?init cs = ?init"
      unfolding fd by (intro counting_destroyed) (simp add: initialScanner_def)
    then show ?thesis using True by (simp add: scanBody_def doResolve_def initialScanner_def)
  next
    case False
    show ?thesis
    proof (cases "int (length (concat cs)) = maxHtmlSize opts")
      case True
      have "retHtml (feedChunks opts ?init cs) = []"
        and "bufferedData (feedChunks opts ?init cs) = []"
        unfolding fd using counting_exact[of ?init cs] False True pos
        by (simp_all add: initialScanner_def)
      then show ?thesis using False True by (simp add: scanBody_def doResolve_def)
    next
      case less: False
      then have "retHtml (feedChunks opts ?init cs) = concat cs"
        and "bufferedData (feedChunks opts ?init cs) = []"
        unfolding fd using counting_feed[of ?init cs] budget False
        by (simp_all add: initialScanner_def)
      then show ?thesis using False less by (simp add: scanBody_def doResolve_def)
    qed
  qed
qed

lemma scanBody_any_chunking:
  assumes mode: "startTokenOf opts \<noteq> [] \<or> stopTokenOf opts \<noteq> []
                 \<or> int (length (concat cs)) \<le> maxHtmlSize opts"
    and h: "int (length (concat cs)) < chunkBufferSizeOf opts
            \<or> (\<not> stopTokenStraddlesBudget opts (keptText opts (concat cs))
                \<and> \<not> stopTokenLeavesStartToken opts (keptText opts (concat cs)))"
  shows "scanBody opts d cs = scanBody opts d [concat cs]"
proof -
  have c1: "concat [concat cs] = concat cs" by simp
  show ?thesis
  proof (cases "startTokenOf opts \<noteq> [] \<or> stopTokenOf opts \<noteq> []")
    case True
    have "scanBody opts d ds
        = retHtml (processChunkTokens opts (initialScanner opts d) (concat cs) True)"
      if "concat ds = concat cs" for ds
    proof (cases "int (length (concat cs)) < chunkBufferSizeOf opts")
      case small: True
      show ?thesis using scanBody_buffered[OF True, of ds d] small that by simp
    next
      case False
      then have "\<not> stopTokenStraddlesBudget opts (keptText opts (concat ds))"
        and "\<not> stopTokenLeavesStartToken opts (keptText opts (concat ds))"
        using h that by simp_all
      then show ?thesis using scanBody_tokens[OF True, of ds d] that by simp
    qed
    from this[of cs] this[of "[concat cs]"] show ?thesis by simp
  next
    case False
    then have m: "startTokenOf opts = []" "stopTokenOf opts = []" by simp_all
    have b: "int (length (concat cs)) \<le> maxHtmlSize opts" using mode False by simp
    have b1: "int (length (concat [concat cs])) \<le> maxHtmlSize opts" using b by (simp only: c1)
    show ?thesis
      unfolding scanBody_counting[OF m b] scanBody_counting[OF m b1] c1
      by (rule refl)
  qed
qed

section \<open>Claim C2: independence of the chunk boundaries\<close>

text \<open>
  C2, amended. Take the kept text of the body: the body from its first start token on.
  When a token is configured, suppose that the body is shorter than the chunk buffer (then
  nothing is scanned before the final flush), or else that the first stop token of the
  kept text, when it is excluded from the output, does not begin before the byte budget and
  end after it, and that no stop token begins inside an included start token and ends at or
  after its end. When neither token is configured, suppose that the body is not longer than
  the budget. Then the scanner gives the same output for the body in 1-byte chunks, in any
  other chunks, and in a single chunk, with the final flush in each run. The body may be
  longer than the budget.
\<close>

theorem chunk_boundary_independence:
  assumes "startTokenOf opts \<noteq> [] \<or> stopTokenOf opts \<noteq> []
           \<or> int (length body) \<le> maxHtmlSize opts"
    and "int (length body) < chunkBufferSizeOf opts
         \<or> (\<not> stopTokenStraddlesBudget opts (keptText opts body)
             \<and> \<not> stopTokenLeavesStartToken opts (keptText opts body))"
  shows "scanBody opts destroyed (oneByteChunks body) = scanBody opts destroyed [body]
     \<and> (concat chunks = body \<longrightarrow> scanBody opts destroyed chunks = scanBody opts destroyed [body])"
proof -
  have "scanBody opts destroyed (oneByteChunks body) = scanBody opts destroyed [body]"
    using scanBody_any_chunking[of opts "oneByteChunks body" destroyed] assms
    by (simp add: concat_oneByteChunks)
  moreover have "scanBody opts destroyed chunks = scanBody opts destroyed [body]"
    if "concat chunks = body"
    using scanBody_any_chunking[of opts chunks destroyed] assms that by simp
  ultimately show ?thesis by blast
qed

text \<open>C2, witness: the tokens of the title lookup, \<^verbatim>\<open><title\<close> included and \<^verbatim>\<open></title>\<close>
  excluded, a budget of 20 bytes and a page of 60 bytes, in 1-byte chunks, in three chunks
  that cut both tokens, and in one chunk.\<close>

theorem chunk_boundary_independence_witness:
  "\<not> stopTokenStraddlesBudget
        ((fieldDefaults TEST1_URL)\<lparr> startToken := Some ''<title'', stopToken := Some ''</title>'',
            chunkBufferSize := 0, maxBytes := 20 \<rparr>)
        (keptText ((fieldDefaults TEST1_URL)\<lparr> startToken := Some ''<title'',
            stopToken := Some ''</title>'', chunkBufferSize := 0, maxBytes := 20 \<rparr>)
          ''<html><head><title>Hi</title></head><body>text</body></html>'')
   \<and> \<not> stopTokenLeavesStartToken
        ((fieldDefaults TEST1_URL)\<lparr> startToken := Some ''<title'', stopToken := Some ''</title>'',
            chunkBufferSize := 0, maxBytes := 20 \<rparr>)
        (keptText ((fieldDefaults TEST1_URL)\<lparr> startToken := Some ''<title'',
            stopToken := Some ''</title>'', chunkBufferSize := 0, maxBytes := 20 \<rparr>)
          ''<html><head><title>Hi</title></head><body>text</body></html>'')
   \<and> maxHtmlSize ((fieldDefaults TEST1_URL)\<lparr> startToken := Some ''<title'',
            stopToken := Some ''</title>'', chunkBufferSize := 0, maxBytes := 20 \<rparr>)
       < int (length ''<html><head><title>Hi</title></head><body>text</body></html>'')
   \<and> chunkBufferSizeOf ((fieldDefaults TEST1_URL)\<lparr> startToken := Some ''<title'',
            stopToken := Some ''</title>'', chunkBufferSize := 0, maxBytes := 20 \<rparr>)
       < int (length ''<html><head><title>Hi</title></head><body>text</body></html>'')
   \<and> scanBody ((fieldDefaults TEST1_URL)\<lparr> startToken := Some ''<title'',
            stopToken := Some ''</title>'', chunkBufferSize := 0, maxBytes := 20 \<rparr>) False
         (oneByteChunks ''<html><head><title>Hi</title></head><body>text</body></html>'')
       = scanBody ((fieldDefaults TEST1_URL)\<lparr> startToken := Some ''<title'',
            stopToken := Some ''</title>'', chunkBufferSize := 0, maxBytes := 20 \<rparr>) False
         [''<html><head><title>Hi</title></head><body>text</body></html>'']
   \<and> scanBody ((fieldDefaults TEST1_URL)\<lparr> startToken := Some ''<title'',
            stopToken := Some ''</title>'', chunkBufferSize := 0, maxBytes := 20 \<rparr>) False
         [''<html><head><title>Hi</title></head><body>text</body></html>''] = ''<title>Hi''
   \<and> scanBody ((fieldDefaults TEST1_URL)\<lparr> startToken := Some ''<title'',
            stopToken := Some ''</title>'', chunkBufferSize := 0, maxBytes := 20 \<rparr>) False
         [''<html><head><tit'', ''le>Hi</ti'', ''tle></head><body>text</body></html>'']
       = ''<title>Hi''"
proof -
  let ?opts = "(fieldDefaults TEST1_URL)\<lparr> startToken := Some ''<title'',
            stopToken := Some ''</title>'', chunkBufferSize := 0, maxBytes := 20 \<rparr>"
  let ?body = "''<html><head><title>Hi</title></head><body>text</body></html>''"
  let ?chunks = "[''<html><head><tit'', ''le>Hi</ti'', ''tle></head><body>text</body></html>'']"
  have k: "keptText ?opts ?body = ''<title>Hi</title></head><body>text</body></html>''"
    by (simp add: keptText_def scan_defs string_defs)
  have h0: "startTokenOf ?opts \<noteq> [] \<or> stopTokenOf ?opts \<noteq> []
           \<or> int (length ?body) \<le> maxHtmlSize ?opts"
    by (simp add: scan_defs string_defs)
  have h1: "\<not> stopTokenStraddlesBudget ?opts (keptText ?opts ?body)"
    unfolding k by (simp add: kept_defs scan_defs string_defs)
  have h2: "\<not> stopTokenLeavesStartToken ?opts (keptText ?opts ?body)"
    unfolding k by (simp add: kept_defs scan_defs string_defs upt_rec)
  have m: "maxHtmlSize ?opts < int (length ?body)" by (simp add: scan_defs)
  have n: "chunkBufferSizeOf ?opts < int (length ?body)" by (simp add: scan_defs string_defs)
  have h: "int (length ?body) < chunkBufferSizeOf ?opts
         \<or> (\<not> stopTokenStraddlesBudget ?opts (keptText ?opts ?body)
             \<and> \<not> stopTokenLeavesStartToken ?opts (keptText ?opts ?body))"
    using h1 h2 by (intro disjI2 conjI)
  have c: "concat ?chunks = ?body" by simp
  have w: "scanBody ?opts False [?body] = ''<title>Hi''"
    by (simp add: scan_defs string_defs)
  note T = chunk_boundary_independence[OF h0 h, of False ?chunks]
  have a: "scanBody ?opts False (oneByteChunks ?body) = scanBody ?opts False [?body]"
    using T by (rule conjunct1)
  have b: "scanBody ?opts False ?chunks = ''<title>Hi''"
    using T[THEN conjunct2, THEN mp, OF c] w by simp
  show ?thesis by (intro conjI) (fact h1, fact h2, fact m, fact n, fact a, fact w, fact b)
qed

text \<open>C2, counterexample to the claim as stated, one input for each condition. With
  \<^verbatim>\<open>maxBytes = 4\<close> and the stop token \<^verbatim>\<open>XY\<close>, the body \<^verbatim>\<open>abcXYz\<close> gives \<^verbatim>\<open>abcX\<close> in 1-byte
  chunks (the budget is reached before the stop token is complete) and \<^verbatim>\<open>abc\<close> in one chunk.
  With the start token \<^verbatim>\<open>ab\<close> included and the stop token \<^verbatim>\<open>bc\<close>, the body \<^verbatim>\<open>abc\<close> gives \<^verbatim>\<open>a\<close>
  in 1-byte chunks (the lowered search floor lets the stop token match inside the start
  token) and \<^verbatim>\<open>abc\<close> in one chunk. With no token and \<^verbatim>\<open>maxBytes = 2\<close>, the body \<^verbatim>\<open>abc\<close> gives
  the empty string in 1-byte chunks and \<^verbatim>\<open>a\<close> in one chunk. In the first two the chunk buffer
  holds 2 bytes, less than the body.\<close>

theorem chunking_changes_output:
  "scanBody ((fieldDefaults TEST1_URL)\<lparr> stopToken := Some ''XY'', chunkBufferSize := 0,
               maxBytes := 4 \<rparr>) False (oneByteChunks ''abcXYz'') = ''abcX''
   \<and> scanBody ((fieldDefaults TEST1_URL)\<lparr> stopToken := Some ''XY'', chunkBufferSize := 0,
               maxBytes := 4 \<rparr>) False [''abcXYz''] = ''abc''
   \<and> stopTokenStraddlesBudget ((fieldDefaults TEST1_URL)\<lparr> stopToken := Some ''XY'',
               chunkBufferSize := 0, maxBytes := 4 \<rparr>)
         (keptText ((fieldDefaults TEST1_URL)\<lparr> stopToken := Some ''XY'',
               chunkBufferSize := 0, maxBytes := 4 \<rparr>) ''abcXYz'')
   \<and> scanBody ((fieldDefaults TEST1_URL)\<lparr> startToken := Some ''ab'', stopToken := Some ''bc'',
               chunkBufferSize := 0 \<rparr>) False (oneByteChunks ''abc'') = ''a''
   \<and> scanBody ((fieldDefaults TEST1_URL)\<lparr> startToken := Some ''ab'', stopToken := Some ''bc'',
               chunkBufferSize := 0 \<rparr>) False [''abc''] = ''abc''
   \<and> stopTokenLeavesStartToken ((fieldDefaults TEST1_URL)\<lparr> startToken := Some ''ab'',
               stopToken := Some ''bc'', chunkBufferSize := 0 \<rparr>)
         (keptText ((fieldDefaults TEST1_URL)\<lparr> startToken := Some ''ab'',
               stopToken := Some ''bc'', chunkBufferSize := 0 \<rparr>) ''abc'')
   \<and> chunkBufferSizeOf ((fieldDefaults TEST1_URL)\<lparr> stopToken := Some ''XY'',
               chunkBufferSize := 0, maxBytes := 4 \<rparr>) = 2
   \<and> chunkBufferSizeOf ((fieldDefaults TEST1_URL)\<lparr> startToken := Some ''ab'',
               stopToken := Some ''bc'', chunkBufferSize := 0 \<rparr>) = 2
   \<and> scanBody ((fieldDefaults TEST1_URL)\<lparr> maxBytes := 2 \<rparr>) False (oneByteChunks ''abc'') = []
   \<and> scanBody ((fieldDefaults TEST1_URL)\<lparr> maxBytes := 2 \<rparr>) False [''abc''] = ''a''"
  by (simp add: kept_defs scan_defs string_defs upt_rec)

section \<open>The byte budget when a token is configured\<close>

text \<open>With a start or a stop token, the output never exceeds the effective byte budget,
  whatever the chunks.\<close>

lemma finishScan_within_budget:
  assumes "0 \<le> maxHtmlSize opts"
  shows "int (length (retHtml (finishScan opts st))) \<le> maxHtmlSize opts"
proof -
  have cut: "int (length (substring r 0 m)) \<le> maxHtmlSize opts"
    if "0 \<le> m" "m \<le> maxHtmlSize opts" for r m
    using that by (simp add: substring_take)
  have enf: "int (length (retHtml (enforceMaxHtmlSize opts s))) \<le> maxHtmlSize opts" for s
    using cut[of "maxHtmlSize opts"] assms
    by (simp add: enforceMaxHtmlSize_def destroyRequest_def)
  show ?thesis
  proof (cases "stopTokenOf opts \<noteq> []
      \<and> 0 \<le> indexOf (retHtml st) (stopTokenOf opts) (minStopTokenIndexInAllHtml st)")
    case True
    have "0 \<le> min (indexOf (retHtml st) (stopTokenOf opts) (minStopTokenIndexInAllHtml st)
                  + (if isStopTokenIncluded opts then stopTokenLength opts else 0))
               (maxHtmlSize opts)"
      using True assms by (simp add: stopTokenLength_def)
    then show ?thesis
      using True finishScan_hit[of opts st] cut by simp
  next
    case False
    then have "finishScan opts st = enforceMaxHtmlSize opts st
        \<or> finishScan opts st = enforceMaxHtmlSize opts
              (st\<lparr> minStopTokenIndexInAllHtml :=
                      int (length (retHtml st)) - stopTokenLength opts \<rparr>)"
      by (cases "stopTokenOf opts = []") (simp_all add: finishScan_def searchStopToken_def Let_def)
    then show ?thesis using enf by auto
  qed
qed

lemma scanPending_within_budget:
  assumes "0 \<le> maxHtmlSize opts" and "int (length (retHtml st)) \<le> maxHtmlSize opts"
  shows "int (length (retHtml (scanPending opts st p))) \<le> maxHtmlSize opts"
proof (cases "isStartTokenFound st")
  case True
  then show ?thesis
    using finishScan_within_budget[OF assms(1)] by (simp add: scanPending_found)
next
  case False
  show ?thesis
  proof (cases "0 \<le> indexOf p (startTokenOf opts) 0")
    case True
    then show ?thesis
      using finishScan_within_budget[OF assms(1)] False by (simp add: scanPending_hit)
  next
    case miss: False
    then have "indexOf p (startTokenOf opts) 0 < 0" by simp
    then show ?thesis using assms(2) False by (simp add: scanPending_miss)
  qed
qed

lemma processChunkTokens_within_budget:
  assumes "0 \<le> maxHtmlSize opts" and "int (length (retHtml st)) \<le> maxHtmlSize opts"
  shows "int (length (retHtml (processChunkTokens opts st c force))) \<le> maxHtmlSize opts"
  using assms scanPending_within_budget[OF assms]
  by (simp add: processChunkTokens_alt)

lemma token_mode_output_within_budget:
  assumes mode: "startTokenOf opts \<noteq> [] \<or> stopTokenOf opts \<noteq> []"
    and "0 \<le> maxBytes opts"
  shows "int (length (scanBody opts d chunks)) \<le> maxHtmlSize opts"
proof -
  have m: "0 \<le> maxHtmlSize opts"
    using assms(2) by (simp add: maxHtmlSize_def DEFAULT_MAX_SIZE_def)
  have pc: "processChunk opts = processChunkTokens opts"
    using mode by (intro ext) (simp add: processChunk_def)
  have feed: "int (length (retHtml (foldl (\<lambda>s c. processChunkTokens opts s c False) st cs)))
      \<le> maxHtmlSize opts"
    if "int (length (retHtml st)) \<le> maxHtmlSize opts" for st cs
    using that
  proof (induction cs arbitrary: st)
    case Nil
    then show ?case by simp
  next
    case (Cons c cs)
    then show ?case using processChunkTokens_within_budget[OF m] by simp
  qed
  have "int (length (retHtml (feedChunks opts (initialScanner opts d) chunks))) \<le> maxHtmlSize opts"
    unfolding feedChunks_def pc using m by (intro feed) (simp add: initialScanner_def)
  then show ?thesis
    using processChunkTokens_within_budget[OF m]
    by (simp add: scanBody_def doResolve_def pc)
qed

end
